theory Spec2Isabelle
  imports Main "HOL-Library.Word" "HOL-Library.List_Lexorder" "HOL-Library.AList"
    "HOL-Library.Multiset" "HOL-Library.Log_Nat"
begin

unbundle bit_operations_syntax

section \<open>JavaScript values\<close>

subsection \<open>Strings\<close>

text \<open>
  A JavaScript string is a sequence of UTF-16 code units. \<open>charCodeAt\<close> reads one of
  them, \<open>length\<close> counts them, and the relational operators compare two strings code
  unit by code unit (a proper prefix is smaller), which is the lexicographic order of
  lists over the order of 16-bit words.
\<close>

type_synonym jsstring = "16 word list"

definition js :: "string \<Rightarrow> jsstring" where
  "js s = map (\<lambda>c. of_nat (of_char c)) s"

text \<open>
  \<open>String.prototype.toLowerCase\<close> and \<open>toUpperCase\<close> follow the Unicode case
  mappings, which this development does not define: the functions that call them take
  them as a parameter, and every property is proved for all functions in their place.
\<close>

record builtins =
  toLowerCase :: "jsstring \<Rightarrow> jsstring"
  toUpperCase :: "jsstring \<Rightarrow> jsstring"

text \<open>
  The two mappings as they act on strings of Basic Latin characters, for concrete
  inputs made of such characters.
\<close>

definition basic_latin :: builtins where
  "basic_latin =
     \<lparr> toLowerCase = map (\<lambda>u. if 65 \<le> u \<and> u \<le> 90 then u + 32 else u),
       toUpperCase = map (\<lambda>u. if 97 \<le> u \<and> u \<le> 122 then u - 32 else u) \<rparr>"

text \<open>\<open>a || b\<close> on an optional string: \<open>undefined\<close>, \<open>null\<close> and \<open>''\<close> are falsy.\<close>

definition or_else :: "jsstring option \<Rightarrow> jsstring \<Rightarrow> jsstring" where
  "or_else a b = (case a of None \<Rightarrow> b | Some s \<Rightarrow> if s = [] then b else s)"

subsection \<open>Numbers\<close>

text \<open>
  A JavaScript number is an IEEE 754 double: a finite value, which is a rational number,
  or \<open>NaN\<close>, or an infinity. Negative zero is not told apart from zero: no operation
  below depends on its sign.
\<close>

datatype number = Num rat | NaN | PosInfinity | NegInfinity

text \<open>
  Rounding to the nearest double, ties to even: the value is scaled by a power of two
  so that the significand has 53 bits (fewer for subnormal values, whose exponent stays
  at \<open>-1074\<close>), and rounded to an integer there. Overflow to an infinity needs an
  operand beyond the largest double and is left out.
\<close>

definition pow2 :: "int \<Rightarrow> rat" where
  "pow2 e = (if 0 \<le> e then 2 ^ nat e else 1 / 2 ^ nat (- e))"

text \<open>For \<open>x > 0\<close>, the exponent \<open>k\<close> with \<open>2 ^ k \<le> x < 2 ^ (k + 1)\<close>.\<close>

definition floorlog2 :: "rat \<Rightarrow> int" where
  "floorlog2 x =
     (let k = bitlen (fst (quotient_of x)) - bitlen (snd (quotient_of x))
      in if pow2 k \<le> x then k else k - 1)"

definition round_even :: "rat \<Rightarrow> int" where
  "round_even q =
     (let f = \<lfloor>q\<rfloor>; r = q - of_int f
      in if r < 1 / 2 then f else if 1 / 2 < r then f + 1 else if even f then f else f + 1)"

definition fl :: "rat \<Rightarrow> rat" where
  "fl x =
     (if x = 0 then 0
      else let e = max (floorlog2 \<bar>x\<bar> - 52) (- 1074)
           in of_int (round_even (x / pow2 e)) * pow2 e)"

text \<open>The operators \<open>+\<close> and \<open>-\<close> on numbers.\<close>

fun js_add :: "number \<Rightarrow> number \<Rightarrow> number" where
  "js_add (Num a) (Num b) = Num (fl (a + b))"
| "js_add NaN _ = NaN"
| "js_add _ NaN = NaN"
| "js_add PosInfinity NegInfinity = NaN"
| "js_add NegInfinity PosInfinity = NaN"
| "js_add PosInfinity _ = PosInfinity"
| "js_add NegInfinity _ = NegInfinity"
| "js_add _ PosInfinity = PosInfinity"
| "js_add _ NegInfinity = NegInfinity"

fun js_neg :: "number \<Rightarrow> number" where
  "js_neg (Num a) = Num (- a)"
| "js_neg NaN = NaN"
| "js_neg PosInfinity = NegInfinity"
| "js_neg NegInfinity = PosInfinity"

definition js_sub :: "number \<Rightarrow> number \<Rightarrow> number" where
  "js_sub a b = js_add a (js_neg b)"

text \<open>
  \<open>ToInt32\<close>: a finite value is truncated towards zero and taken modulo \<open>2 ^ 32\<close>;
  \<open>NaN\<close> and the infinities give 0. The result of a bitwise operator is the number
  that the 32 bits stand for in two's complement.
\<close>

definition trunc :: "rat \<Rightarrow> int" where
  "trunc x = (if 0 \<le> x then \<lfloor>x\<rfloor> else \<lceil>x\<rceil>)"

fun ToInt32 :: "number \<Rightarrow> 32 word" where
  "ToInt32 (Num x) = word_of_int (trunc x)"
| "ToInt32 _ = 0"

definition int32 :: "32 word \<Rightarrow> number" where
  "int32 w = Num (of_int (sint w))"

definition shl :: "number \<Rightarrow> nat \<Rightarrow> number" where
  "shl x n = int32 (push_bit (n mod 32) (ToInt32 x))"

definition bitand :: "number \<Rightarrow> number \<Rightarrow> number" where
  "bitand x y = int32 (ToInt32 x AND ToInt32 y)"

fun Math_abs :: "number \<Rightarrow> number" where
  "Math_abs (Num x) = Num \<bar>x\<bar>"
| "Math_abs NaN = NaN"
| "Math_abs PosInfinity = PosInfinity"
| "Math_abs NegInfinity = PosInfinity"

text \<open>
  \<open>x % n\<close> for an array length \<open>n\<close>: the remainder has the sign of \<open>x\<close> and is
  exact; it is \<open>NaN\<close> when \<open>n\<close> is 0 or \<open>x\<close> is not finite.
\<close>

fun js_mod :: "number \<Rightarrow> nat \<Rightarrow> number" where
  "js_mod (Num x) n =
     (if n = 0 then NaN else Num (x - of_nat n * of_int (trunc (x / of_nat n))))"
| "js_mod _ n = NaN"

text \<open>
  \<open>xs[i]\<close> on an array: the element when \<open>i\<close> is an integer from 0 below the
  length, \<open>undefined\<close> (\<open>None\<close>) for every other number.
\<close>

fun at_index :: "'a list \<Rightarrow> number \<Rightarrow> 'a option" where
  "at_index xs (Num x) =
     (if x = of_int \<lfloor>x\<rfloor> \<and> 0 \<le> x \<and> \<lfloor>x\<rfloor> < int (length xs)
      then Some (xs ! nat \<lfloor>x\<rfloor>) else None)"
| "at_index xs _ = None"

section \<open>Avatar selection (avatar.tsx)\<close>

text \<open>
  \<open>hashString\<close>: the loop over the code units of \<open>str\<close>, from \<open>hash = seed\<close>.
  The shift and the bitwise AND work on 32-bit integers, the subtraction and the
  addition between them on doubles.
\<close>

definition hash_step :: "number \<Rightarrow> 16 word \<Rightarrow> number" where
  "hash_step hash u =
     (let char = Num (of_int (uint u));
          hash1 = js_add (js_sub (shl hash 5) hash) char
      in bitand hash1 hash1)"

definition hashString :: "jsstring \<Rightarrow> number \<Rightarrow> number" where
  "hashString str seed = Math_abs (foldl hash_step seed str)"

text \<open>
  \<open>getAvatarPathByName\<close>, with the module constant \<open>AVATAR_PATHS\<close> as a parameter.
  The result is \<open>None\<close> when the array access yields \<open>undefined\<close>.
\<close>

definition getAvatarPathByName :: "jsstring list \<Rightarrow> jsstring \<Rightarrow> number \<Rightarrow> jsstring option" where
  "getAvatarPathByName AVATAR_PATHS name seed =
     (if length AVATAR_PATHS = 0 then Some []
      else let hash = hashString name seed;
               index = js_mod hash (length AVATAR_PATHS)
           in at_index AVATAR_PATHS index)"

text \<open>
  The hash as the specification words it, on integers: start from the seed and, for each
  character code, replace the hash by \<open>hash * 31 + c\<close> wrapped to a signed 32-bit
  integer; take the absolute value at the end.
\<close>

definition wrap32 :: "int \<Rightarrow> int" where
  "wrap32 x = (x + 2 ^ 31) mod 2 ^ 32 - 2 ^ 31"

definition spec_hash :: "jsstring \<Rightarrow> int \<Rightarrow> int" where
  "spec_hash str seed = \<bar>foldl (\<lambda>h u. wrap32 (h * 31 + uint u)) seed str\<bar>"

text \<open>
  \<open>loadAvatarComponent\<close>: \<open>avatarModules\<close> gives the component behind an asset
  path, if the glob has found a file for it (the full path of the source is the asset
  path between a fixed prefix and suffix).
\<close>

definition loadAvatarComponent :: "(jsstring \<Rightarrow> 'c option) \<Rightarrow> jsstring \<Rightarrow> 'c option" where
  "loadAvatarComponent avatarModules path =
     (if path = [] then None else avatarModules path)"

text \<open>
  A \<open>ReactNode\<close>: an element (opaque, numbered), a string, a number, a boolean,
  \<open>null\<close> or \<open>undefined\<close>. The test \<open>if (customAvatar)\<close> is JavaScript truthiness.
\<close>

datatype react_node =
    Element nat
  | TextNode jsstring
  | NumberNode int
  | BoolNode bool
  | Null
  | Undefined

fun truthy :: "react_node \<Rightarrow> bool" where
  "truthy (Element _) = True"
| "truthy (TextNode s) = (s \<noteq> [])"
| "truthy (NumberNode n) = (n \<noteq> 0)"
| "truthy (BoolNode b) = b"
| "truthy Null = False"
| "truthy Undefined = False"

text \<open>What the component puts inside its \<open>Avatar\<close> frame.\<close>

datatype 'c avatar_view =
    Custom react_node
  | SystemAvatar
  | RandomAvatar 'c
  | Initials jsstring

text \<open>
  The render body of \<open>AsAvatar\<close>. \<open>AvatarComponent\<close> is the component's state: the
  component that the last finished load has stored, \<open>None\<close> before any.
\<close>

definition AsAvatar ::
  "builtins \<Rightarrow> jsstring \<Rightarrow> jsstring \<Rightarrow> bool \<Rightarrow> (jsstring \<Rightarrow> jsstring \<Rightarrow> react_node) option \<Rightarrow>
   'c option \<Rightarrow> 'c avatar_view" where
  "AsAvatar B name role randomAvatar renderAvatar AvatarComponent =
     (let avatarComponent =
            (case renderAvatar of
               None \<Rightarrow> None
             | Some f \<Rightarrow>
                 (let customAvatar = f name role
                  in if truthy customAvatar then Some (Custom customAvatar) else None))
      in case avatarComponent of
           Some v \<Rightarrow> v
         | None \<Rightarrow>
             if toLowerCase B role = js ''system'' then SystemAvatar
             else if randomAvatar \<and> AvatarComponent \<noteq> None
               then RandomAvatar (the AvatarComponent)
             else Initials (toUpperCase B (take 2 name)))"

text \<open>
  The effect of \<open>AsAvatar\<close>, in two parts: the asset path whose load it starts, if
  any, and what the callback of the finished load does to the state.
\<close>

definition avatar_load_request ::
  "builtins \<Rightarrow> jsstring list \<Rightarrow> jsstring \<Rightarrow> jsstring \<Rightarrow> bool \<Rightarrow> number \<Rightarrow> jsstring option" where
  "avatar_load_request B AVATAR_PATHS name role randomAvatar seed =
     (if randomAvatar \<and> toLowerCase B role \<noteq> js ''system''
      then (case getAvatarPathByName AVATAR_PATHS name seed of
              None \<Rightarrow> None
            | Some avatarPath \<Rightarrow> if avatarPath \<noteq> [] then Some avatarPath else None)
      else None)"

definition avatar_loaded :: "'c option \<Rightarrow> 'c option \<Rightarrow> 'c option" where
  "avatar_loaded component AvatarComponent =
     (case component of Some c \<Rightarrow> Some c | None \<Rightarrow> AvatarComponent)"

text \<open>
  The resolved asset has loaded: the effect for these inputs asks for a path, the
  modules have a component for it, and the state holds that component.
\<close>

definition resolved_asset_loaded ::
  "builtins \<Rightarrow> jsstring list \<Rightarrow> (jsstring \<Rightarrow> 'c option) \<Rightarrow> jsstring \<Rightarrow> jsstring \<Rightarrow> bool \<Rightarrow>
   number \<Rightarrow> 'c option \<Rightarrow> bool" where
  "resolved_asset_loaded B AVATAR_PATHS avatarModules name role randomAvatar seed AvatarComponent =
     (case avatar_load_request B AVATAR_PATHS name role randomAvatar seed of
        None \<Rightarrow> False
      | Some path \<Rightarrow>
          loadAvatarComponent avatarModules path \<noteq> None \<and>
          AvatarComponent = loadAvatarComponent avatarModules path)"

text \<open>Concrete inputs: two render callbacks, three assets and their modules.\<close>

definition renderFalse :: "jsstring \<Rightarrow> jsstring \<Rightarrow> react_node" where
  "renderFalse name role = BoolNode False"

definition renderBadge :: "jsstring \<Rightarrow> jsstring \<Rightarrow> react_node" where
  "renderBadge name role = Element 7"

definition sample_paths :: "jsstring list" where
  "sample_paths = [js ''a/1'', js ''a/2'', js ''b/1'']"

definition sample_modules :: "jsstring \<Rightarrow> jsstring option" where
  "sample_modules path = (if path \<in> set sample_paths then Some path else None)"

section \<open>Chat transcript (AsChat)\<close>

text \<open>
  The fields of a message and of a \<open>Reply\<close> that \<open>AsChat\<close> reads and writes; the
  content of a message is opaque here.
\<close>

record 'c message =
  msg_id :: jsstring
  msg_name :: jsstring
  msg_role :: jsstring
  msg_timestamp :: jsstring
  msg_content :: 'c

record 'c Reply =
  replyId :: jsstring
  replyName :: jsstring
  replyRole :: jsstring
  createdAt :: jsstring
  finishedAt :: jsstring
  messages :: "'c message list"

text \<open>The object that the inner \<open>forEach\<close> pushes for one message.\<close>

definition flattedReply :: "'c message \<Rightarrow> 'c Reply" where
  "flattedReply msg =
     \<lparr> replyId = msg_id msg,
       replyName = msg_name msg,
       replyRole = msg_role msg,
       createdAt = msg_timestamp msg,
       finishedAt = msg_timestamp msg,
       messages = [msg] \<rparr>"

text \<open>
  \<open>organizedReplies\<close>: the two nested \<open>forEach\<close> loops are folds over an accumulator
  to which \<open>push\<close> appends.
\<close>

definition organizedReplies :: "bool \<Rightarrow> 'c Reply list \<Rightarrow> 'c Reply list" where
  "organizedReplies byReplyId replies =
     (if length replies = 0 then []
      else if byReplyId then replies
      else foldl (\<lambda>flattedReplies reply.
                    foldl (\<lambda>acc msg. acc @ [flattedReply msg]) flattedReplies (messages reply))
             [] replies)"

text \<open>
  The scroll container, in whole CSS pixels. Assigning \<open>scrollTop\<close> lets the browser
  clamp the offset to the scrollable range, from 0 to \<open>scrollHeight - clientHeight\<close>.
\<close>

record element =
  scrollTop :: int
  scrollHeight :: int
  clientHeight :: int

definition set_scrollTop :: "int \<Rightarrow> element \<Rightarrow> element" where
  "set_scrollTop v el =
     el\<lparr>scrollTop := max 0 (min v (scrollHeight el - clientHeight el))\<rparr>"

text \<open>
  The state the auto-scroll logic works on: the flag \<open>isAtBottom\<close> and the element
  behind \<open>bubbleListRef\<close> (\<open>None\<close> while the ref is not attached).
\<close>

record chat_state =
  isAtBottom :: bool
  bubbleListRef :: "element option"

text \<open>The effect that runs when \<open>organizedReplies\<close> or \<open>isAtBottom\<close> has changed.\<close>

definition autoScroll :: "chat_state \<Rightarrow> chat_state" where
  "autoScroll st =
     (case bubbleListRef st of
        None \<Rightarrow> st
      | Some el \<Rightarrow>
          if isAtBottom st
          then st\<lparr>bubbleListRef := Some (set_scrollTop (scrollHeight el) el)\<rparr>
          else st)"

text \<open>
  The commit after a reply has been appended: layout gives the container its new
  \<open>scrollHeight\<close>, the offset stays where it was, then the effect runs.
\<close>

definition replyAppended :: "int \<Rightarrow> chat_state \<Rightarrow> chat_state" where
  "replyAppended newScrollHeight st =
     autoScroll
       (st\<lparr>bubbleListRef :=
            map_option (\<lambda>el. el\<lparr>scrollHeight := newScrollHeight\<rparr>) (bubbleListRef st)\<rparr>)"

definition handleScroll :: "chat_state \<Rightarrow> chat_state" where
  "handleScroll st =
     (case bubbleListRef st of
        None \<Rightarrow> st
      | Some el \<Rightarrow>
          (let atBottom = scrollHeight el - scrollTop el - clientHeight el < 50
           in st\<lparr>isAtBottom := atBottom\<rparr>))"

section \<open>The migration AddMessageReplyForeignKey1730000000000\<close>

subsection \<open>Database state\<close>

text \<open>
  The payload of the column \<open>msg\<close>: an object with the three fields the migration
  reads (each may be absent), or a payload from which they cannot be read (text that
  \<open>JSON.parse\<close> rejects), at which the loop throws.
\<close>

record msg_data =
  md_role :: "jsstring option"
  md_name :: "jsstring option"
  md_timestamp :: "jsstring option"

datatype payload = Malformed | Payload msg_data

record message_row =
  m_id :: jsstring
  m_run_id :: jsstring
  m_msg :: payload
  m_replyId :: "jsstring option"

record reply_row =
  row_replyId :: jsstring
  row_replyRole :: jsstring
  row_replyName :: jsstring
  row_run_id :: jsstring
  row_createdAt :: jsstring
  row_finishedAt :: "jsstring option"

record foreign_key =
  fk_name :: string
  fk_columnNames :: "string list"
  fk_referencedTableName :: string
  fk_referencedColumnNames :: "string list"
  fk_onDelete :: string

text \<open>
  The part of the schema and of the data that the migration touches: the ids of
  \<open>run_table\<close>; \<open>reply_table\<close> (\<open>None\<close> while the table does not exist) and its
  foreign keys; the rows of \<open>message_table\<close>, whether its column \<open>replyId\<close> is
  nullable, and its foreign keys.
\<close>

record db =
  run_table :: "jsstring list"
  reply_table :: "reply_row list option"
  reply_foreignKeys :: "foreign_key list"
  message_table :: "message_row list"
  replyId_isNullable :: bool
  message_foreignKeys :: "foreign_key list"

datatype error =
    TableAlreadyExists string
  | NoSuchTable string
  | ConstraintAlreadyExists string
  | UniqueConstraintFailed jsstring
  | ForeignKeyConstraintFailed jsstring
  | NotNullConstraintFailed string
  | JSONSyntaxError
  | MigrationFailed nat

text \<open>
  A statement returns the state it leaves and the error it threw, if any; the next
  statement runs only after a statement that threw nothing.
\<close>

type_synonym outcome = "error option \<times> db"

definition and_then :: "outcome \<Rightarrow> (db \<Rightarrow> outcome) \<Rightarrow> outcome" where
  "and_then r f = (case fst r of None \<Rightarrow> f (snd r) | Some e \<Rightarrow> r)"

text \<open>
  What the migration does not fix: the reading of the clock at the \<open>i\<close>-th message of
  the scan (\<open>new Date().toISOString()\<close>); the collation of the column \<open>id\<close>, as a
  key under which \<open>ORDER BY id\<close> is ascending; and whether the database refuses a
  second foreign key of the same name on a table.
\<close>

record env =
  clock :: "nat \<Rightarrow> jsstring"
  collation :: "jsstring \<Rightarrow> nat list"
  duplicate_constraint_fails :: bool

text \<open>
  The binary collation of SQLite compares the UTF-8 bytes of two texts: the key of a
  string is its UTF-8 encoding. A surrogate pair is one code point; a surrogate that
  stands alone, which a text read from the database never has, is encoded like any
  other code unit.
\<close>

fun code_points :: "jsstring \<Rightarrow> nat list" where
  "code_points [] = []"
| "code_points [u] = [unat u]"
| "code_points (u # v # rest) =
     (if 0xD800 \<le> u \<and> u \<le> 0xDBFF \<and> 0xDC00 \<le> v \<and> v \<le> 0xDFFF
      then (0x10000 + (unat u - 0xD800) * 0x400 + (unat v - 0xDC00)) # code_points rest
      else unat u # code_points (v # rest))"

definition utf8_bytes :: "nat \<Rightarrow> nat list" where
  "utf8_bytes c =
     (if c < 0x80 then [c]
      else if c < 0x800 then [0xC0 + c div 64, 0x80 + c mod 64]
      else if c < 0x10000 then [0xE0 + c div 4096, 0x80 + c div 64 mod 64, 0x80 + c mod 64]
      else [0xF0 + c div 262144, 0x80 + c div 4096 mod 64, 0x80 + c div 64 mod 64,
            0x80 + c mod 64])"

definition utf8 :: "jsstring \<Rightarrow> nat list" where
  "utf8 s = concat (map utf8_bytes (code_points s))"

subsection \<open>The query runner\<close>

text \<open>
  The calls of the migration on its \<open>QueryRunner\<close>, on the two tables it names.
  \<open>createTable\<close> with \<open>ifNotExists\<close> set skips a table that exists; a new table
  has no rows and no foreign keys.
\<close>

definition createTable :: "string \<Rightarrow> bool \<Rightarrow> db \<Rightarrow> outcome" where
  "createTable tableName ifNotExists d =
     (if tableName = ''reply_table'' then
        (case reply_table d of
           Some rows \<Rightarrow>
             if ifNotExists then (None, d) else (Some (TableAlreadyExists tableName), d)
         | None \<Rightarrow> (None, d\<lparr>reply_table := Some [], reply_foreignKeys := []\<rparr>))
      else (Some (TableAlreadyExists tableName), d))"

text \<open>
  A foreign key is added to the table's list. Rows already in the table are not looked
  at again.
\<close>

definition createForeignKey :: "bool \<Rightarrow> string \<Rightarrow> foreign_key \<Rightarrow> db \<Rightarrow> outcome" where
  "createForeignKey clash_fails tableName fk d =
     (if tableName = ''reply_table'' then
        (if reply_table d = None then (Some (NoSuchTable tableName), d)
         else if clash_fails \<and> fk_name fk \<in> set (map fk_name (reply_foreignKeys d))
           then (Some (ConstraintAlreadyExists (fk_name fk)), d)
         else (None, d\<lparr>reply_foreignKeys := reply_foreignKeys d @ [fk]\<rparr>))
      else if tableName = ''message_table'' then
        (if clash_fails \<and> fk_name fk \<in> set (map fk_name (message_foreignKeys d))
           then (Some (ConstraintAlreadyExists (fk_name fk)), d)
         else (None, d\<lparr>message_foreignKeys := message_foreignKeys d @ [fk]\<rparr>))
      else (Some (NoSuchTable tableName), d))"

text \<open>\<open>dropForeignKey\<close> removes the first foreign key of that name.\<close>

fun removeForeignKey :: "string \<Rightarrow> foreign_key list \<Rightarrow> foreign_key list" where
  "removeForeignKey n [] = []"
| "removeForeignKey n (fk # fks) =
     (if fk_name fk = n then fks else fk # removeForeignKey n fks)"

definition dropForeignKey :: "string \<Rightarrow> foreign_key \<Rightarrow> db \<Rightarrow> outcome" where
  "dropForeignKey tableName fk d =
     (if tableName = ''message_table''
      then (None, d\<lparr>message_foreignKeys := removeForeignKey (fk_name fk) (message_foreignKeys d)\<rparr>)
      else (Some (NoSuchTable tableName), d))"

text \<open>
  \<open>changeColumn\<close> on \<open>message_table.replyId\<close>: only the nullability changes. A
  column cannot become NOT NULL while a row holds NULL in it.
\<close>

definition changeColumn :: "string \<Rightarrow> string \<Rightarrow> bool \<Rightarrow> db \<Rightarrow> outcome" where
  "changeColumn tableName columnName isNullable d =
     (if tableName = ''message_table'' \<and> columnName = ''replyId'' then
        (if \<not> isNullable \<and> None \<in> set (map m_replyId (message_table d))
         then (Some (NotNullConstraintFailed columnName), d)
         else (None, d\<lparr>replyId_isNullable := isNullable\<rparr>))
      else (Some (NoSuchTable tableName), d))"

definition dropTable :: "string \<Rightarrow> bool \<Rightarrow> db \<Rightarrow> outcome" where
  "dropTable tableName ifExist d =
     (if tableName = ''reply_table'' then
        (case reply_table d of
           None \<Rightarrow> if ifExist then (None, d) else (Some (NoSuchTable tableName), d)
         | Some rows \<Rightarrow> (None, d\<lparr>reply_table := None, reply_foreignKeys := []\<rparr>))
      else (Some (NoSuchTable tableName), d))"

text \<open>
  \<open>SELECT id, run_id, msg, replyId FROM message_table ORDER BY id\<close>: the rows of
  the table, in ascending order of their ids under the collation.
\<close>

definition select_messages :: "env \<Rightarrow> db \<Rightarrow> message_row list" where
  "select_messages e d = sort_key (\<lambda>m. collation e (m_id m)) (message_table d)"

text \<open>\<open>replyId IS NULL OR replyId = ''\<close>\<close>

definition null_or_empty :: "jsstring option \<Rightarrow> bool" where
  "null_or_empty r = (case r of None \<Rightarrow> True | Some s \<Rightarrow> s = [])"

text \<open>\<open>UPDATE message_table SET replyId = id WHERE replyId IS NULL OR replyId = ''\<close>\<close>

definition update_replyId_to_id :: "db \<Rightarrow> outcome" where
  "update_replyId_to_id d =
     (None, d\<lparr>message_table :=
        map (\<lambda>m. if null_or_empty (m_replyId m) then m\<lparr>m_replyId := Some (m_id m)\<rparr> else m)
          (message_table d)\<rparr>)"

text \<open>\<open>UPDATE message_table SET replyId = NULL\<close>\<close>

definition update_replyId_to_null :: "db \<Rightarrow> outcome" where
  "update_replyId_to_null d =
     (if replyId_isNullable d
      then (None, d\<lparr>message_table := map (\<lambda>m. m\<lparr>m_replyId := None\<rparr>) (message_table d)\<rparr>)
      else if message_table d = [] then (None, d)
      else (Some (NotNullConstraintFailed ''replyId''), d))"

text \<open>
  \<open>SELECT COUNT(*) as count FROM message_table WHERE replyId IS NULL OR replyId = ''\<close>
\<close>

definition select_null_count :: "db \<Rightarrow> nat" where
  "select_null_count d = length (filter (\<lambda>m. null_or_empty (m_replyId m)) (message_table d))"

subsection \<open>The forward migration\<close>

text \<open>
  The values of \<open>replyMap\<close>. A JavaScript \<open>Map\<close> keeps its keys in insertion
  order: it is an association list, \<open>set\<close> on a new key appends, and a change of the
  object stored under a key replaces it in place (both are \<open>AList.update\<close>).
\<close>

record reply_info =
  r_replyId :: jsstring
  r_role :: jsstring
  r_name :: jsstring
  r_runId :: jsstring
  r_createdAt :: jsstring
  r_finishedAt :: jsstring

type_synonym replyMap = "(jsstring \<times> reply_info) list"

definition has :: "replyMap \<Rightarrow> jsstring \<Rightarrow> bool" where
  "has replyMap k = (map_of replyMap k \<noteq> None)"

text \<open>
  The body of the loop over \<open>allMessages\<close>, for the \<open>i\<close>-th message; the loop state
  is \<open>replyMap\<close> and \<open>nullReplyCount\<close>.
\<close>

definition loop_body ::
  "(nat \<Rightarrow> jsstring) \<Rightarrow> nat \<Rightarrow> message_row \<Rightarrow> replyMap \<times> nat \<Rightarrow> error + replyMap \<times> nat" where
  "loop_body now i message st =
     (case m_msg message of
        Malformed \<Rightarrow> Inl JSONSyntaxError
      | Payload msgData \<Rightarrow>
          (let replyMap = fst st;
               nullReplyCount = snd st;
               role = or_else (md_role msgData) (js ''unknown'');
               name = or_else (md_name msgData) role;
               timestamp = or_else (md_timestamp msgData) (now i);
               hasReplyId = \<not> null_or_empty (m_replyId message);
               replyIdToUse = (if hasReplyId then the (m_replyId message) else m_id message);
               replyMap' =
                 (if \<not> has replyMap replyIdToUse then
                    AList.update replyIdToUse
                      \<lparr> r_replyId = replyIdToUse, r_role = role, r_name = name,
                        r_runId = m_run_id message,
                        r_createdAt = timestamp, r_finishedAt = timestamp \<rparr>
                      replyMap
                  else
                    (let existing = the (map_of replyMap replyIdToUse)
                     in if timestamp > r_finishedAt existing then
                          AList.update replyIdToUse
                            (existing\<lparr>r_finishedAt := timestamp, r_role := role, r_name := name\<rparr>)
                            replyMap
                        else replyMap))
           in Inr (replyMap', if \<not> hasReplyId then nullReplyCount + 1 else nullReplyCount)))"

fun scan :: "(nat \<Rightarrow> jsstring) \<Rightarrow> nat \<Rightarrow> message_row list \<Rightarrow> replyMap \<times> nat \<Rightarrow> error + replyMap \<times> nat" where
  "scan now i [] st = Inr st"
| "scan now i (message # rest) st =
     (case loop_body now i message st of
        Inl e \<Rightarrow> Inl e
      | Inr st' \<Rightarrow> scan now (Suc i) rest st')"

text \<open>
  \<open>INSERT INTO reply_table (...) VALUES (...)\<close>: the primary key \<open>replyId\<close> is
  unique, and \<open>run_id\<close> must name a run once the table has its foreign key to
  \<open>run_table\<close>.
\<close>

definition reply_row_of :: "reply_info \<Rightarrow> reply_row" where
  "reply_row_of reply =
     \<lparr> row_replyId = r_replyId reply,
       row_replyRole = r_role reply,
       row_replyName = r_name reply,
       row_run_id = r_runId reply,
       row_createdAt = r_createdAt reply,
       row_finishedAt = Some (r_finishedAt reply) \<rparr>"

definition insert_reply :: "reply_info \<Rightarrow> db \<Rightarrow> outcome" where
  "insert_reply reply d =
     (case reply_table d of
        None \<Rightarrow> (Some (NoSuchTable ''reply_table''), d)
      | Some rows \<Rightarrow>
          if r_replyId reply \<in> set (map row_replyId rows)
            then (Some (UniqueConstraintFailed (r_replyId reply)), d)
          else if ''run_table'' \<in> set (map fk_referencedTableName (reply_foreignKeys d))
                  \<and> r_runId reply \<notin> set (run_table d)
            then (Some (ForeignKeyConstraintFailed (r_runId reply)), d)
          else (None, d\<lparr>reply_table := Some (rows @ [reply_row_of reply])\<rparr>))"

fun insert_replies :: "reply_info list \<Rightarrow> db \<Rightarrow> outcome" where
  "insert_replies [] d = (None, d)"
| "insert_replies (reply # rest) d = and_then (insert_reply reply d) (insert_replies rest)"

definition FK_reply_run :: foreign_key where
  "FK_reply_run =
     \<lparr> fk_name = ''FK_reply_run'', fk_columnNames = [''run_id''],
       fk_referencedTableName = ''run_table'', fk_referencedColumnNames = [''id''],
       fk_onDelete = ''CASCADE'' \<rparr>"

definition FK_message_reply :: foreign_key where
  "FK_message_reply =
     \<lparr> fk_name = ''FK_message_reply'', fk_columnNames = [''replyId''],
       fk_referencedTableName = ''reply_table'', fk_referencedColumnNames = [''replyId''],
       fk_onDelete = ''CASCADE'' \<rparr>"

text \<open>Step 1 of \<open>up\<close>: create \<open>reply_table\<close> and its foreign key to \<open>run_table\<close>.\<close>

definition up_create :: "env \<Rightarrow> db \<Rightarrow> outcome" where
  "up_create e d =
     and_then (createTable ''reply_table'' True d)
       (createForeignKey (duplicate_constraint_fails e) ''reply_table'' FK_reply_run)"

text \<open>
  Step 2 of \<open>up\<close>: scan the messages, insert one reply per entry of \<open>replyMap\<close> in
  insertion order, and give the messages without a reply id their own id.
\<close>

definition up_backfill :: "env \<Rightarrow> db \<Rightarrow> outcome" where
  "up_backfill e d =
     (let allMessages = select_messages e d
      in case scan (clock e) 0 allMessages ([], 0) of
           Inl err \<Rightarrow> (Some err, d)
         | Inr st \<Rightarrow>
             (let replyMap = fst st; nullReplyCount = snd st
              in and_then (insert_replies (map snd replyMap) d)
                   (\<lambda>d'. if nullReplyCount > 0 then update_replyId_to_id d' else (None, d'))))"

text \<open>
  Step 3 of \<open>up\<close>: \<open>count\<close> is \<open>nullCount[0].count || nullCount[0].COUNT\<close>, which
  is \<open>undefined\<close> when the count is 0, and \<open>undefined > 0\<close> is false.
\<close>

definition up_verify :: "db \<Rightarrow> outcome" where
  "up_verify d =
     (let nullCount = select_null_count d;
          count = (if nullCount \<noteq> 0 then Some nullCount else None)
      in if (case count of None \<Rightarrow> False | Some c \<Rightarrow> c > 0)
         then (Some (MigrationFailed (the count)), d)
         else (None, d))"

text \<open>Step 4 of \<open>up\<close>: make \<open>replyId\<close> NOT NULL and add the foreign key.\<close>

definition up_constrain :: "env \<Rightarrow> db \<Rightarrow> outcome" where
  "up_constrain e d =
     and_then (changeColumn ''message_table'' ''replyId'' False d)
       (createForeignKey (duplicate_constraint_fails e) ''message_table'' FK_message_reply)"

definition up :: "env \<Rightarrow> db \<Rightarrow> outcome" where
  "up e d =
     and_then (up_create e d) (\<lambda>d1.
     and_then (up_backfill e d1) (\<lambda>d2.
     and_then (up_verify d2) (up_constrain e)))"

subsection \<open>The backward migration\<close>

definition down :: "db \<Rightarrow> outcome" where
  "down d =
     (let foreignKey = find (\<lambda>fk. ''replyId'' \<in> set (fk_columnNames fk)) (message_foreignKeys d)
      in and_then
           (case foreignKey of
              Some fk \<Rightarrow> dropForeignKey ''message_table'' fk d
            | None \<Rightarrow> (None, d)) (\<lambda>d1.
         and_then (changeColumn ''message_table'' ''replyId'' True d1) (\<lambda>d2.
         and_then (update_replyId_to_null d2) (dropTable ''reply_table'' True))))"

subsection \<open>Notions for stating the properties\<close>

text \<open>
  The grouping key of a message: its \<open>replyId\<close> when that is present and not empty,
  its own id otherwise.
\<close>

definition grouping_key :: "message_row \<Rightarrow> jsstring" where
  "grouping_key m = (if null_or_empty (m_replyId m) then m_id m else the (m_replyId m))"

text \<open>
  What the \<open>i\<close>-th message of the scan contributes by itself: the entry that the loop
  stores when the message is the first of its group. Its \<open>r_createdAt\<close> and
  \<open>r_finishedAt\<close> are both the timestamp of the message, its \<open>r_role\<close> and
  \<open>r_name\<close> the role and the name of the message.
\<close>

definition sight :: "(nat \<Rightarrow> jsstring) \<Rightarrow> nat \<Rightarrow> message_row \<Rightarrow> reply_info" where
  "sight now i m =
     (let msgData = (case m_msg m of
                       Payload p \<Rightarrow> p
                     | Malformed \<Rightarrow> \<lparr> md_role = None, md_name = None, md_timestamp = None \<rparr>);
          role = or_else (md_role msgData) (js ''unknown'');
          timestamp = or_else (md_timestamp msgData) (now i)
      in \<lparr> r_replyId = grouping_key m, r_role = role,
           r_name = or_else (md_name msgData) role,
           r_runId = m_run_id m,
           r_createdAt = timestamp, r_finishedAt = timestamp \<rparr>)"

fun sights :: "(nat \<Rightarrow> jsstring) \<Rightarrow> nat \<Rightarrow> message_row list \<Rightarrow> reply_info list" where
  "sights now i [] = []"
| "sights now i (m # ms) = sight now i m # sights now (Suc i) ms"

text \<open>The contributions of one group, in scan order.\<close>

definition group_of :: "jsstring \<Rightarrow> reply_info list \<Rightarrow> reply_info list" where
  "group_of k items = filter (\<lambda>f. r_replyId f = k) items"

text \<open>What a later message of a group does to the entry of the group.\<close>

definition absorb :: "reply_info \<Rightarrow> reply_info \<Rightarrow> reply_info" where
  "absorb existing new =
     (if r_finishedAt new > r_finishedAt existing
      then existing\<lparr>r_finishedAt := r_finishedAt new, r_role := r_role new, r_name := r_name new\<rparr>
      else existing)"

fun fold_group :: "reply_info option \<Rightarrow> reply_info list \<Rightarrow> reply_info option" where
  "fold_group acc [] = acc"
| "fold_group acc (f # fs) =
     fold_group (Some (case acc of None \<Rightarrow> f | Some existing \<Rightarrow> absorb existing f)) fs"

text \<open>What the backfilling \<open>UPDATE\<close> does to one row.\<close>

definition fill :: "message_row \<Rightarrow> message_row" where
  "fill m = (if null_or_empty (m_replyId m) then m\<lparr>m_replyId := Some (m_id m)\<rparr> else m)"

text \<open>The rows of \<open>reply_table\<close> before a run (none while the table does not exist).\<close>

definition old_rows :: "db \<Rightarrow> reply_row list" where
  "old_rows d = (case reply_table d of None \<Rightarrow> [] | Some rows \<Rightarrow> rows)"

subsection \<open>Concrete states\<close>

definition mk_msg :: "string \<Rightarrow> string option \<Rightarrow> string \<Rightarrow> string \<Rightarrow> string \<Rightarrow> message_row" where
  "mk_msg i r role name ts =
     \<lparr> m_id = js i, m_run_id = js ''run1'',
       m_msg = Payload \<lparr> md_role = Some (js role), md_name = Some (js name),
                         md_timestamp = Some (js ts) \<rparr>,
       m_replyId = map_option js r \<rparr>"

definition old_schema :: "message_row list \<Rightarrow> db" where
  "old_schema ms =
     \<lparr> run_table = [js ''run1''], reply_table = None, reply_foreignKeys = [],
       message_table = ms, replyId_isNullable = True, message_foreignKeys = [] \<rparr>"

definition env0 :: env where
  "env0 =
     \<lparr> clock = (\<lambda>i. js ''2025-01-01T00:00:00.000Z''), collation = utf8,
       duplicate_constraint_fails = False \<rparr>"

definition env1 :: env where
  "env1 =
     \<lparr> clock = (\<lambda>i. js ''2025-01-01T00:00:00.000Z''), collation = utf8,
       duplicate_constraint_fails = True \<rparr>"

text \<open>The example of the specification.\<close>

definition example_messages :: "message_row list" where
  "example_messages =
     [ mk_msg ''1'' None ''user'' ''alice'' ''09:00'',
       mk_msg ''2'' (Some ''A'') ''assistant'' ''bot'' ''09:05'',
       mk_msg ''3'' (Some ''A'') ''assistant'' ''bot'' ''09:10'' ]"

text \<open>
  One group whose later message, in scan order, carries the earlier timestamp.
\<close>

definition late_first_messages :: "message_row list" where
  "late_first_messages =
     [ mk_msg ''1'' (Some ''A'') ''assistant'' ''bot'' ''09:10'',
       mk_msg ''2'' (Some ''A'') ''user'' ''alice'' ''09:05'' ]"

text \<open>The same group in a table whose rows are not in the order of their ids.\<close>

definition unsorted_messages :: "message_row list" where
  "unsorted_messages =
     [ mk_msg ''2'' (Some ''A'') ''assistant'' ''bot'' ''09:00'',
       mk_msg ''1'' (Some ''A'') ''user'' ''alice'' ''08:00'' ]"

text \<open>A message without a reply id whose own id is the empty string.\<close>

definition empty_id_messages :: "message_row list" where
  "empty_id_messages = [ mk_msg [] None ''user'' ''alice'' ''09:00'' ]"

text \<open>Two messages of one reply.\<close>

definition grouped_messages :: "message_row list" where
  "grouped_messages =
     [ mk_msg ''2'' (Some ''A'') ''assistant'' ''bot'' ''09:05'',
       mk_msg ''3'' (Some ''A'') ''assistant'' ''bot'' ''09:10'' ]"

section \<open>Properties of the avatar selection\<close>

subsection \<open>Doubles that are integers\<close>

lemma round_even_int: "round_even (of_int m) = m"
  by (simp add: round_even_def)

lemma pow2_neg: "e \<le> 0 \<Longrightarrow> pow2 e = 1 / 2 ^ nat (- e)"
  by (auto simp: pow2_def)

lemma bitlen_le_53:
  assumes "0 < n" and "n < 2 ^ 53"
  shows "bitlen n \<le> 53"
proof (rule ccontr)
  assume "\<not> bitlen n \<le> 53"
  then have "53 \<le> nat (bitlen n - 1)" by simp
  then have "(2::int) ^ 53 \<le> 2 ^ nat (bitlen n - 1)"
    by (rule power_increasing) simp
  also have "\<dots> \<le> n" using bitlen_bounds [OF assms(1)] by simp
  finally show False using assms(2) by simp
qed

lemma floorlog2_int_le:
  assumes "0 < n" and "n < 2 ^ 53"
  shows "floorlog2 (of_int n) \<le> 52"
proof -
  have "bitlen n - bitlen 1 \<le> 52"
    using bitlen_le_53 [OF assms] by (simp add: bitlen_alt_def)
  then show ?thesis
    by (auto simp: floorlog2_def Let_def)
qed

lemma fl_int_small:
  assumes "\<bar>k\<bar> < 2 ^ 53"
  shows "fl (of_int k) = of_int k"
proof (cases "k = 0")
  case True
  then show ?thesis by (simp add: fl_def)
next
  case False
  let ?e = "max (floorlog2 \<bar>rat_of_int k\<bar> - 52) (- 1074)"
  have abs: "\<bar>rat_of_int k\<bar> = of_int \<bar>k\<bar>" by simp
  have "floorlog2 (of_int \<bar>k\<bar>) \<le> 52"
    using False assms by (intro floorlog2_int_le) auto
  then have e: "?e \<le> 0" by (simp only: abs)
  define j where "j = nat (- ?e)"
  have p: "pow2 ?e = 1 / 2 ^ j" using e by (simp add: pow2_neg j_def)
  have "rat_of_int k / pow2 ?e = of_int (k * 2 ^ j)"
    by (simp add: p)
  then have "round_even (rat_of_int k / pow2 ?e) = k * 2 ^ j"
    by (simp only: round_even_int)
  then have "fl (of_int k) = of_int (k * 2 ^ j) * pow2 ?e"
    using False by (simp add: fl_def Let_def)
  also have "\<dots> = of_int k" by (simp add: p)
  finally show ?thesis .
qed

lemma fl_int:
  assumes "\<bar>k\<bar> \<le> 2 ^ 53"
  shows "fl (of_int k) = of_int k"
proof (cases "\<bar>k\<bar> < 2 ^ 53")
  case True
  then show ?thesis by (rule fl_int_small)
next
  case False
  with assms have "k = 2 ^ 53 \<or> k = - (2 ^ 53)" by auto
  moreover have "fl (of_int (2 ^ 53)) = of_int (2 ^ 53)" by code_simp
  moreover have "fl (of_int (- (2 ^ 53))) = of_int (- (2 ^ 53))" by code_simp
  ultimately show ?thesis by auto
qed

lemma trunc_of_int: "trunc (of_int k) = k"
  by (simp add: trunc_def)

lemma toInt32_wrap32: "sint (word_of_int x :: 32 word) = wrap32 x"
  unfolding wrap32_def
  by (simp add: sint_sbintrunc' signed_take_bit_eq_take_bit_shift take_bit_eq_mod)

lemma sint32_bounds: "- (2 ^ 31) \<le> sint (w :: 32 word) \<and> sint w < 2 ^ 31"
  using sint_ge [of w] sint_lt [of w] by simp

lemma hash_step_exact:
  assumes "\<bar>h\<bar> \<le> 2 ^ 53 - 2 ^ 32"
  shows "hash_step (Num (of_int h)) u = Num (of_int (wrap32 (h * 31 + uint u)))"
proof -
  define a where "a = sint (push_bit 5 (word_of_int h :: 32 word))"
  have ab: "- (2 ^ 31) \<le> a \<and> a < 2 ^ 31"
    unfolding a_def by (rule sint32_bounds)
  define c where "c = uint u"
  have cb: "0 \<le> c \<and> c < 2 ^ 16"
    unfolding c_def using uint_lt2p [of u] by simp
  have s: "shl (Num (of_int h)) 5 = Num (of_int a)"
    by (simp add: shl_def int32_def trunc_of_int a_def)
  have b1: "\<bar>a - h\<bar> \<le> 2 ^ 53" using ab assms by auto
  have sub: "js_sub (Num (of_int a)) (Num (of_int h)) = Num (of_int (a - h))"
    using fl_int [OF b1] by (simp add: js_sub_def)
  have b2: "\<bar>a - h + c\<bar> \<le> 2 ^ 53" using ab cb assms by auto
  have add: "js_add (Num (of_int (a - h))) (Num (of_int (uint u))) = Num (of_int (a - h + uint u))"
    using fl_int [OF b2] by (simp add: c_def)
  have w: "(word_of_int (a - h + uint u) :: 32 word) = word_of_int (h * 31 + uint u)"
    by (simp add: a_def push_bit_eq_mult mult.commute)
  have "hash_step (Num (of_int h)) u
      = int32 (word_of_int (a - h + uint u) AND word_of_int (a - h + uint u))"
    by (simp only: hash_step_def Let_def s sub add bitand_def ToInt32.simps trunc_of_int)
  also have "\<dots> = Num (of_int (sint (word_of_int (h * 31 + uint u) :: 32 word)))"
    by (simp only: int32_def w and.idem)
  finally show ?thesis by (simp only: toInt32_wrap32)
qed

lemma wrap32_bounds: "\<bar>wrap32 x\<bar> \<le> 2 ^ 53 - 2 ^ 32"
proof -
  have "- (2 ^ 31) \<le> wrap32 x \<and> wrap32 x < 2 ^ 31"
    using sint32_bounds [of "word_of_int x"] by (simp only: toInt32_wrap32)
  then show ?thesis by auto
qed

lemma foldl_hash_step_exact:
  "\<bar>h\<bar> \<le> 2 ^ 53 - 2 ^ 32 \<Longrightarrow>
   foldl hash_step (Num (of_int h)) str
     = Num (of_int (foldl (\<lambda>h u. wrap32 (h * 31 + uint u)) h str))"
proof (induction str arbitrary: h)
  case Nil
  then show ?case by simp
next
  case (Cons u str)
  have "foldl hash_step (Num (of_int h)) (u # str)
      = foldl hash_step (Num (of_int (wrap32 (h * 31 + uint u)))) str"
    by (simp add: hash_step_exact [OF Cons.prems])
  also have "\<dots> = Num (of_int (foldl (\<lambda>h u. wrap32 (h * 31 + uint u)) (wrap32 (h * 31 + uint u)) str))"
    by (rule Cons.IH) (rule wrap32_bounds)
  finally show ?case by simp
qed

lemma hashString_spec_hash:
  "\<bar>seed\<bar> \<le> 2 ^ 53 - 2 ^ 32 \<Longrightarrow>
   hashString str (Num (of_int seed)) = Num (of_int (spec_hash str seed))"
  by (simp add: hashString_def spec_hash_def foldl_hash_step_exact)

lemma js_mod_int:
  assumes "0 \<le> H" and "0 < n"
  shows "js_mod (Num (of_int H)) n = Num (of_int (H mod int n))"
proof -
  have "rat_of_int H / of_nat n = of_int H / of_int (int n)" by simp
  moreover have "0 \<le> rat_of_int H / of_int (int n)" using assms by simp
  ultimately have t: "trunc (rat_of_int H / of_nat n) = H div int n"
    by (simp only: trunc_def floor_divide_of_int_eq if_True)
  have "rat_of_int H - of_nat n * of_int (H div int n) = of_int (H - int n * (H div int n))"
    by simp
  also have "H - int n * (H div int n) = H mod int n"
    by (simp add: minus_mult_div_eq_mod)
  finally show ?thesis using assms(2) by (simp add: t)
qed

lemma at_index_int:
  assumes "0 \<le> i" and "i < int (length xs)"
  shows "at_index xs (Num (of_int i)) = Some (xs ! nat i)"
  using assms by simp

text \<open>
  Claim C7, as amended. For an integer seed of magnitude at most \<open>2 ^ 53 - 2 ^ 32\<close>
  (the one call site passes 14), the hash that \<open>hashString\<close> computes with the shift,
  the subtraction, the addition and the bitwise AND is the hash of the specification:
  from the seed, \<open>hash * 31 + c\<close> wrapped to 32 bits for each character code, and the
  absolute value at the end. \<open>getAvatarPathByName\<close> returns the empty path for the
  empty asset list and otherwise the asset at index hash modulo the number of assets,
  which is one of the assets. Both are functions of the name, the seed and the asset
  list alone.
\<close>

theorem avatar_selection_by_hash:
  assumes "\<bar>seed\<bar> \<le> 2 ^ 53 - 2 ^ 32"
  shows "hashString name (Num (of_int seed)) = Num (of_int (spec_hash name seed)) \<and>
   getAvatarPathByName P name (Num (of_int seed)) =
     Some (if P = [] then [] else P ! (nat (spec_hash name seed) mod length P)) \<and>
   (P \<noteq> [] \<longrightarrow> (\<exists>p \<in> set P. getAvatarPathByName P name (Num (of_int seed)) = Some p))"
proof -
  have h: "hashString name (Num (of_int seed)) = Num (of_int (spec_hash name seed))"
    using assms by (rule hashString_spec_hash)
  have nn: "0 \<le> spec_hash name seed"
    by (simp add: spec_hash_def)
  have sel: "getAvatarPathByName P name (Num (of_int seed)) =
     Some (if P = [] then [] else P ! (nat (spec_hash name seed) mod length P))"
  proof (cases "P = []")
    case True
    then show ?thesis by (simp add: getAvatarPathByName_def)
  next
    case False
    then have n: "0 < length P" by simp
    have m: "js_mod (Num (of_int (spec_hash name seed))) (length P)
        = Num (of_int (spec_hash name seed mod int (length P)))"
      by (rule js_mod_int [OF nn n])
    have r: "0 \<le> spec_hash name seed mod int (length P)"
      "spec_hash name seed mod int (length P) < int (length P)"
      using n by simp_all
    have idx: "nat (spec_hash name seed mod int (length P)) = nat (spec_hash name seed) mod length P"
      using nn by (simp add: nat_mod_distrib)
    show ?thesis using False
      by (simp only: getAvatarPathByName_def Let_def h m at_index_int [OF r] idx)
        (simp add: False)
  qed
  have mem: "P \<noteq> [] \<longrightarrow> (\<exists>p \<in> set P. getAvatarPathByName P name (Num (of_int seed)) = Some p)"
    by (simp add: sel)
  from h sel mem show ?thesis by blast
qed

theorem avatar_selection_by_hash_witness:
  "getAvatarPathByName [js ''a/1'', js ''a/2'', js ''b/1''] (js ''Friday'') (Num 14)
     = Some (js ''a/1'') \<and>
   hashString (js ''Friday'') (Num 14) = Num 1652698893 \<and>
   getAvatarPathByName [] (js ''Friday'') (Num 14) = Some []"
proof -
  have b: "\<bar>14 :: int\<bar> \<le> 2 ^ 53 - 2 ^ 32" by simp
  have s: "spec_hash (js ''Friday'') 14 = 1652698893"
    by (simp add: spec_hash_def wrap32_def js_def)
  from avatar_selection_by_hash [OF b, of "js ''Friday''" "[js ''a/1'', js ''a/2'', js ''b/1'']"]
    avatar_selection_by_hash [OF b, of "js ''Friday''" "[]"]
  show ?thesis by (simp add: s)
qed

text \<open>
  Claim C7 as stated, for every seed, fails. At the seed \<open>2 ^ 53 - 1\<close> and the name
  \<open>a\<close> the subtraction rounds: the code computes 65 and selects the third of three
  assets, where the hash of the specification is 66 and selects the first. At the seed
  one half the code computes 96 for the name \<open>a\<close> (the specification's
  \<open>hash * 31 + c\<close> is 112.5), and for the empty name the index is one half and no
  asset is selected.
\<close>

theorem avatar_seed_counterexample:
  "hashString (js ''a'') (Num 9007199254740991) = Num 65 \<and>
   spec_hash (js ''a'') 9007199254740991 = 66 \<and>
   getAvatarPathByName [js ''a/1'', js ''a/2'', js ''b/1''] (js ''a'') (Num 9007199254740991)
     = Some (js ''b/1'') \<and>
   [js ''a/1'', js ''a/2'', js ''b/1''] ! (66 mod 3) = js ''a/1'' \<and>
   hashString (js ''a'') (Num (1 / 2)) = Num 96 \<and>
   getAvatarPathByName [js ''a/1'', js ''a/2''] [] (Num (1 / 2)) = None"
  by code_simp

subsection \<open>The precedence of \<open>AsAvatar\<close>\<close>

text \<open>
  Claim C8, as amended. The custom render callback wins when it is supplied and what it
  returns is truthy, whatever the role and the flag are. Otherwise (no callback, or a
  falsy result) the role \<open>system\<close>, compared in lower case, shows the system avatar;
  otherwise, when \<open>randomAvatar\<close> is set and the resolved asset has loaded, that
  asset is shown; otherwise, when \<open>randomAvatar\<close> is not set or no asset has been
  loaded, the first two characters of the name, in upper case. What is shown while the
  state still holds an asset loaded for earlier inputs is left open.
\<close>

theorem AsAvatar_precedence:
  "(cb = Some f \<and> truthy (f name role) \<longrightarrow>
      AsAvatar B name role ra cb st = Custom (f name role)) \<and>
   (cb = None \<or> (cb = Some f \<and> \<not> truthy (f name role)) \<longrightarrow>
      (toLowerCase B role = js ''system'' \<longrightarrow> AsAvatar B name role ra cb st = SystemAvatar) \<and>
      (toLowerCase B role \<noteq> js ''system'' \<and> ra \<and>
       resolved_asset_loaded B P modules name role ra seed st \<longrightarrow>
         (\<exists>path c. avatar_load_request B P name role ra seed = Some path \<and>
            loadAvatarComponent modules path = Some c \<and>
            AsAvatar B name role ra cb st = RandomAvatar c)) \<and>
      (toLowerCase B role \<noteq> js ''system'' \<and> (\<not> ra \<or> st = None) \<longrightarrow>
         AsAvatar B name role ra cb st = Initials (toUpperCase B (take 2 name))))"
  by (auto simp: AsAvatar_def Let_def resolved_asset_loaded_def split: option.splits)

theorem AsAvatar_precedence_witness:
  "AsAvatar basic_latin (js ''system'') (js ''System'') True (Some renderBadge)
       (Some (js ''a/1''))
     = Custom (Element 7) \<and>
   AsAvatar basic_latin (js ''sys'') (js ''System'') True None (Some (js ''a/1''))
     = SystemAvatar \<and>
   resolved_asset_loaded basic_latin sample_paths sample_modules (js ''Friday'') (js ''user'')
       True (Num 14) (Some (js ''a/1'')) \<and>
   AsAvatar basic_latin (js ''Friday'') (js ''user'') True None (Some (js ''a/1''))
     = RandomAvatar (js ''a/1'') \<and>
   AsAvatar basic_latin (js ''bob'') (js ''user'') True None (None :: jsstring option)
     = Initials (js ''BO'')"
proof -
  have r: "resolved_asset_loaded basic_latin sample_paths sample_modules (js ''Friday'')
      (js ''user'') True (Num 14) (Some (js ''a/1''))"
    by code_simp
  have q: "avatar_load_request basic_latin sample_paths (js ''Friday'') (js ''user'') True
      (Num 14) = Some (js ''a/1'')"
    "loadAvatarComponent sample_modules (js ''a/1'') = Some (js ''a/1'')"
    by code_simp+
  have l: "toLowerCase basic_latin (js ''System'') = js ''system''"
    "toLowerCase basic_latin (js ''user'') \<noteq> js ''system''"
    "toUpperCase basic_latin (take 2 (js ''bob'')) = js ''BO''"
    by (simp_all add: basic_latin_def js_def)
  from AsAvatar_precedence [of "Some renderBadge" renderBadge "js ''system''" "js ''System''"
      basic_latin True "Some (js ''a/1'')" sample_paths sample_modules "Num 14"]
    AsAvatar_precedence [of None renderBadge "js ''sys''" "js ''System''"
      basic_latin True "Some (js ''a/1'')" sample_paths sample_modules "Num 14"]
    AsAvatar_precedence [of None renderBadge "js ''Friday''" "js ''user''"
      basic_latin True "Some (js ''a/1'')" sample_paths sample_modules "Num 14"]
    AsAvatar_precedence [of None renderBadge "js ''bob''" "js ''user''"
      basic_latin True "None :: jsstring option" sample_paths sample_modules "Num 14"]
    r q l
  show ?thesis by (auto simp: renderBadge_def)
qed

text \<open>
  Claim C8 as stated fails in two ways. A callback that returns \<open>false\<close> returns a
  value that is not null, and the component shows the initials, not that value. And
  after the asset for the name \<open>Friday\<close> has loaded, the component rendered for the
  name \<open>b\<close>, whose resolved asset is another one and has not loaded, shows the
  asset of \<open>Friday\<close> and not the initials.
\<close>

theorem AsAvatar_counterexample:
  "renderFalse (js ''bob'') (js ''user'') \<noteq> Null \<and>
   renderFalse (js ''bob'') (js ''user'') \<noteq> Undefined \<and>
   AsAvatar basic_latin (js ''bob'') (js ''user'') False (Some renderFalse)
       (None :: jsstring option)
     \<noteq> Custom (renderFalse (js ''bob'') (js ''user'')) \<and>
   AsAvatar basic_latin (js ''bob'') (js ''user'') False (Some renderFalse)
       (None :: jsstring option)
     = Initials (js ''BO'') \<and>
   avatar_load_request basic_latin sample_paths (js ''Friday'') (js ''user'') True (Num 14)
     = Some (js ''a/1'') \<and>
   avatar_loaded (loadAvatarComponent sample_modules (js ''a/1'')) None = Some (js ''a/1'') \<and>
   avatar_load_request basic_latin sample_paths (js ''b'') (js ''user'') True (Num 14)
     = Some (js ''a/2'') \<and>
   \<not> resolved_asset_loaded basic_latin sample_paths sample_modules (js ''b'') (js ''user'')
       True (Num 14) (Some (js ''a/1'')) \<and>
   AsAvatar basic_latin (js ''b'') (js ''user'') True None (Some (js ''a/1''))
     = RandomAvatar (js ''a/1'')"
  by code_simp

section \<open>Properties of the chat transcript\<close>

lemma foldl_push: "foldl (\<lambda>acc msg. acc @ [g msg]) acc ms = acc @ map g ms"
  by (induction ms arbitrary: acc) simp_all

lemma foldl_flatten:
  "foldl (\<lambda>flattedReplies reply.
            foldl (\<lambda>acc msg. acc @ [flattedReply msg]) flattedReplies (messages reply)) acc rs
   = acc @ map flattedReply (concat (map messages rs))"
  by (induction rs arbitrary: acc) (simp_all add: foldl_push)

text \<open>
  Claim C10. With the by-reply-id mode off, the list that \<open>AsChat\<close> displays has one
  synthesized reply per message, in the order of the messages over the replies in order.
  The reply of a message carries the id, the name and the role of the message, its
  timestamp as both \<open>createdAt\<close> and \<open>finishedAt\<close>, and that message alone; so the
  displayed messages are the same, in the same order and number.
\<close>

theorem organizedReplies_flattened:
  "organizedReplies False replies = map flattedReply (concat (map messages replies)) \<and>
   length (organizedReplies False replies) = length (concat (map messages replies)) \<and>
   concat (map messages (organizedReplies False replies)) = concat (map messages replies) \<and>
   (\<forall>i < length (concat (map messages replies)).
      let msg = concat (map messages replies) ! i; r = organizedReplies False replies ! i
      in replyId r = msg_id msg \<and> replyName r = msg_name msg \<and> replyRole r = msg_role msg \<and>
         createdAt r = msg_timestamp msg \<and> finishedAt r = msg_timestamp msg \<and>
         messages r = [msg])"
proof -
  have eq: "organizedReplies False replies = map flattedReply (concat (map messages replies))"
    by (cases replies) (simp_all add: organizedReplies_def foldl_flatten)
  have msgs: "concat (map (messages \<circ> flattedReply) ms) = ms" for ms :: "'a message list"
    by (induction ms) (simp_all add: flattedReply_def)
  show ?thesis
    by (simp add: eq msgs Let_def flattedReply_def)
qed

theorem organizedReplies_flattened_witness:
  "organizedReplies False
     [\<lparr> replyId = js ''A'', replyName = js ''bot'', replyRole = js ''assistant'',
        createdAt = js ''09:05'', finishedAt = js ''09:10'',
        messages = [\<lparr> msg_id = js ''2'', msg_name = js ''bot'', msg_role = js ''assistant'',
                       msg_timestamp = js ''09:05'', msg_content = (0::nat) \<rparr>,
                    \<lparr> msg_id = js ''3'', msg_name = js ''tool'', msg_role = js ''system'',
                       msg_timestamp = js ''09:10'', msg_content = 1 \<rparr>] \<rparr>]
   = [\<lparr> replyId = js ''2'', replyName = js ''bot'', replyRole = js ''assistant'',
        createdAt = js ''09:05'', finishedAt = js ''09:05'',
        messages = [\<lparr> msg_id = js ''2'', msg_name = js ''bot'', msg_role = js ''assistant'',
                       msg_timestamp = js ''09:05'', msg_content = 0 \<rparr>] \<rparr>,
      \<lparr> replyId = js ''3'', replyName = js ''tool'', replyRole = js ''system'',
        createdAt = js ''09:10'', finishedAt = js ''09:10'',
        messages = [\<lparr> msg_id = js ''3'', msg_name = js ''tool'', msg_role = js ''system'',
                       msg_timestamp = js ''09:10'', msg_content = 1 \<rparr>] \<rparr>]"
  using organizedReplies_flattened [of
     "[\<lparr> replyId = js ''A'', replyName = js ''bot'', replyRole = js ''assistant'',
        createdAt = js ''09:05'', finishedAt = js ''09:10'',
        messages = [\<lparr> msg_id = js ''2'', msg_name = js ''bot'', msg_role = js ''assistant'',
                       msg_timestamp = js ''09:05'', msg_content = (0::nat) \<rparr>,
                    \<lparr> msg_id = js ''3'', msg_name = js ''tool'', msg_role = js ''system'',
                       msg_timestamp = js ''09:10'', msg_content = 1 \<rparr>] \<rparr>]"]
  by (simp add: flattedReply_def)

text \<open>
  Claim C9. Let the container be attached, with a client height that is not negative
  and not above the scroll height after the append. When a reply is appended while
  \<open>isAtBottom\<close> is true, the scroll offset afterwards is the scroll height minus the
  client height; when \<open>isAtBottom\<close> is false, the offset is what it was (the effect
  changes nothing at all). The scroll handler sets \<open>isAtBottom\<close> to whether the scroll
  height minus the offset minus the client height is below 50, and leaves the container
  alone.
\<close>

theorem autoScroll_handleScroll:
  "bubbleListRef st = Some el \<Longrightarrow> 0 \<le> clientHeight el \<Longrightarrow> clientHeight el \<le> h \<Longrightarrow>
   (isAtBottom st \<longrightarrow>
      bubbleListRef (replyAppended h st) = Some (el\<lparr>scrollHeight := h, scrollTop := h - clientHeight el\<rparr>)) \<and>
   (\<not> isAtBottom st \<longrightarrow>
      bubbleListRef (replyAppended h st) = Some (el\<lparr>scrollHeight := h\<rparr>)) \<and>
   isAtBottom (replyAppended h st) = isAtBottom st \<and>
   (\<not> isAtBottom st \<longrightarrow> autoScroll st = st) \<and>
   isAtBottom (handleScroll st) = (scrollHeight el - scrollTop el - clientHeight el < 50) \<and>
   bubbleListRef (handleScroll st) = Some el"
  by (auto simp: replyAppended_def autoScroll_def handleScroll_def set_scrollTop_def Let_def)

theorem autoScroll_handleScroll_witness:
  "bubbleListRef (replyAppended 900 \<lparr> isAtBottom = True,
       bubbleListRef = Some \<lparr> scrollTop = 400, scrollHeight = 800, clientHeight = 400 \<rparr> \<rparr>)
     = Some \<lparr> scrollTop = 500, scrollHeight = 900, clientHeight = 400 \<rparr> \<and>
   isAtBottom (handleScroll \<lparr> isAtBottom = True,
       bubbleListRef = Some \<lparr> scrollTop = 400, scrollHeight = 800, clientHeight = 400 \<rparr> \<rparr>)"
  using autoScroll_handleScroll [of "\<lparr> isAtBottom = True,
       bubbleListRef = Some \<lparr> scrollTop = 400, scrollHeight = 800, clientHeight = 400 \<rparr> \<rparr>"
      "\<lparr> scrollTop = 400, scrollHeight = 800, clientHeight = 400 \<rparr>" 900]
  by simp

section \<open>Properties of the migration\<close>

subsection \<open>The scan\<close>

lemma and_then_None_iff:
  "and_then r f = (None, d') \<longleftrightarrow> (\<exists>d1. r = (None, d1) \<and> f d1 = (None, d'))"
  by (cases r) (auto simp: and_then_def split: option.splits)

lemma loop_body_Malformed:
  "m_msg m = Malformed \<Longrightarrow> loop_body now i m st = Inl JSONSyntaxError"
  by (simp add: loop_body_def)

lemma loop_body_Payload:
  assumes "m_msg m = Payload p"
  shows "loop_body now i m (rm, n) =
     Inr (AList.update (grouping_key m)
            (case map_of rm (grouping_key m) of
               None \<Rightarrow> sight now i m
             | Some existing \<Rightarrow> absorb existing (sight now i m)) rm,
          if null_or_empty (m_replyId m) then n + 1 else n)"
proof -
  have k: "(if \<not> null_or_empty (m_replyId m) then the (m_replyId m) else m_id m) = grouping_key m"
    by (simp add: grouping_key_def)
  show ?thesis
  proof (cases "map_of rm (grouping_key m)")
    case None
    then show ?thesis using assms
      by (simp add: loop_body_def Let_def has_def k sight_def)
  next
    case (Some ex)
    have triv: "AList.update (grouping_key m) ex rm = rm"
      using Some by (simp add: update_triv)
    show ?thesis using assms Some triv
      by (simp add: loop_body_def Let_def has_def k sight_def absorb_def)
  qed
qed

lemma scan_succeeds_iff:
  "(\<exists>st'. scan now i ms st = Inr st') \<longleftrightarrow> (\<forall>m \<in> set ms. m_msg m \<noteq> Malformed)"
proof (induction ms arbitrary: i st)
  case Nil
  then show ?case by simp
next
  case (Cons m ms)
  show ?case
  proof (cases "m_msg m")
    case Malformed
    then show ?thesis by (auto simp: loop_body_Malformed)
  next
    case (Payload p)
    obtain rm n where st: "st = (rm, n)" by (cases st)
    show ?thesis using Payload Cons.IH
      by (simp add: st loop_body_Payload)
  qed
qed

lemma scan_map_of:
  "scan now i ms (rm, n) = Inr (rm', n') \<Longrightarrow>
   map_of rm' k = fold_group (map_of rm k) (group_of k (sights now i ms))"
proof (induction ms arbitrary: i rm n)
  case Nil
  then show ?case by (simp add: group_of_def)
next
  case (Cons m ms)
  from Cons.prems obtain p where p: "m_msg m = Payload p"
    by (cases "m_msg m") (simp_all add: loop_body_Malformed)
  let ?k = "grouping_key m"
  let ?v = "case map_of rm ?k of None \<Rightarrow> sight now i m | Some existing \<Rightarrow> absorb existing (sight now i m)"
  let ?rm1 = "AList.update ?k ?v rm"
  from Cons.prems p obtain n1 where sc: "scan now (Suc i) ms (?rm1, n1) = Inr (rm', n')"
    by (simp add: loop_body_Payload)
  have IH: "map_of rm' k = fold_group (map_of ?rm1 k) (group_of k (sights now (Suc i) ms))"
    by (rule Cons.IH [OF sc])
  have key: "r_replyId (sight now i m) = ?k" by (simp add: sight_def Let_def)
  show ?case
  proof (cases "k = ?k")
    case True
    then show ?thesis using IH key
      by (simp add: group_of_def update_conv')
  next
    case False
    then show ?thesis using IH key
      by (auto simp add: group_of_def update_conv')
  qed
qed

lemma scan_distinct:
  "scan now i ms (rm, n) = Inr (rm', n') \<Longrightarrow> distinct (map fst rm) \<Longrightarrow> distinct (map fst rm')"
proof (induction ms arbitrary: i rm n)
  case Nil
  then show ?case by simp
next
  case (Cons m ms)
  from Cons.prems obtain p where p: "m_msg m = Payload p"
    by (cases "m_msg m") (simp_all add: loop_body_Malformed)
  show ?case using Cons.prems p Cons.IH
    by (auto simp add: loop_body_Payload distinct_update)
qed

lemma scan_null_count:
  "scan now i ms (rm, n) = Inr (rm', n') \<Longrightarrow>
   n' = n + length (filter (\<lambda>m. null_or_empty (m_replyId m)) ms)"
proof (induction ms arbitrary: i rm n)
  case Nil
  then show ?case by simp
next
  case (Cons m ms)
  from Cons.prems obtain p where p: "m_msg m = Payload p"
    by (cases "m_msg m") (simp_all add: loop_body_Malformed)
  let ?n1 = "if null_or_empty (m_replyId m) then n + 1 else n"
  from Cons.prems p obtain rm1 where sc: "scan now (Suc i) ms (rm1, ?n1) = Inr (rm', n')"
    by (simp add: loop_body_Payload)
  from Cons.IH [OF sc] show ?case by simp
qed

lemma fold_group_Some: "fold_group (Some a) g = Some (foldl absorb a g)"
  by (induction g arbitrary: a) simp_all

lemma absorb_fixed:
  "r_replyId (absorb a x) = r_replyId a" "r_runId (absorb a x) = r_runId a"
  "r_createdAt (absorb a x) = r_createdAt a"
  "r_finishedAt (absorb a x) = max (r_finishedAt a) (r_finishedAt x)"
  by (auto simp: absorb_def max_def)

lemma foldl_absorb_fixed:
  "r_replyId (foldl absorb a g) = r_replyId a \<and> r_runId (foldl absorb a g) = r_runId a \<and>
   r_createdAt (foldl absorb a g) = r_createdAt a"
  by (induction g arbitrary: a) (simp_all add: absorb_fixed)

lemma foldl_absorb_finishedAt:
  "r_finishedAt (foldl absorb a g) = Max (r_finishedAt ` set (a # g))"
proof (induction g arbitrary: a)
  case Nil
  then show ?case by simp
next
  case (Cons x g)
  have "r_finishedAt (foldl absorb a (x # g)) = Max (r_finishedAt ` set (absorb a x # g))"
    using Cons.IH by simp
  also have "\<dots> = Max (insert (max (r_finishedAt a) (r_finishedAt x)) (r_finishedAt ` set g))"
    by (simp add: absorb_fixed)
  also have "\<dots> = Max (r_finishedAt ` set (a # x # g))"
    by (cases "g = []") (simp_all add: max.assoc)
  finally show ?case .
qed

lemma foldl_absorb_source:
  "\<exists>pre m post. a # g = pre @ m # post \<and>
     (\<forall>x \<in> set pre. r_finishedAt x < r_finishedAt m) \<and>
     (\<forall>x \<in> set post. r_finishedAt x \<le> r_finishedAt m) \<and>
     r_role (foldl absorb a g) = r_role m \<and> r_name (foldl absorb a g) = r_name m \<and>
     r_finishedAt (foldl absorb a g) = r_finishedAt m"
proof (induction g rule: rev_induct)
  case Nil
  show ?case by (rule exI [of _ "[]"], rule exI [of _ a], rule exI [of _ "[]"]) simp
next
  case (snoc x g)
  then obtain pre m post where d: "a # g = pre @ m # post"
    and lt: "\<forall>y \<in> set pre. r_finishedAt y < r_finishedAt m"
    and le: "\<forall>y \<in> set post. r_finishedAt y \<le> r_finishedAt m"
    and r: "r_role (foldl absorb a g) = r_role m" "r_name (foldl absorb a g) = r_name m"
      "r_finishedAt (foldl absorb a g) = r_finishedAt m"
    by blast
  show ?case
  proof (cases "r_finishedAt x > r_finishedAt m")
    case True
    have all: "\<forall>y \<in> set (a # g). r_finishedAt y < r_finishedAt x"
    proof
      fix y
      assume "y \<in> set (a # g)"
      then have "y \<in> set pre \<or> y = m \<or> y \<in> set post"
        unfolding d by auto
      then show "r_finishedAt y < r_finishedAt x"
        using lt le True by (auto intro: less_trans le_less_trans)
    qed
    have "a # g @ [x] = (a # g) @ x # []" by simp
    moreover have "r_role (foldl absorb a (g @ [x])) = r_role x"
      "r_name (foldl absorb a (g @ [x])) = r_name x"
      "r_finishedAt (foldl absorb a (g @ [x])) = r_finishedAt x"
      using True r by (simp_all add: absorb_def)
    ultimately show ?thesis using all
      by (intro exI [of _ "a # g"] exI [of _ x] exI [of _ "[]"]) simp
  next
    case False
    have "a # g @ [x] = pre @ m # (post @ [x])" using d by simp
    moreover have "r_role (foldl absorb a (g @ [x])) = r_role m"
      "r_name (foldl absorb a (g @ [x])) = r_name m"
      "r_finishedAt (foldl absorb a (g @ [x])) = r_finishedAt m"
      using False r by (simp_all add: absorb_def)
    moreover have "\<forall>y \<in> set (post @ [x]). r_finishedAt y \<le> r_finishedAt m"
      using le False by auto
    ultimately show ?thesis using lt
      by (intro exI [of _ pre] exI [of _ m] exI [of _ "post @ [x]"]) simp
  qed
qed

subsection \<open>The steps of the forward migration\<close>

lemma sights_keys: "map r_replyId (sights now i ms) = map grouping_key ms"
  by (induction ms arbitrary: i) (simp_all add: sight_def Let_def)

lemma group_of_nonempty_iff:
  "group_of k (sights now i ms) \<noteq> [] \<longleftrightarrow> k \<in> grouping_key ` set ms"
proof -
  have "group_of k (sights now i ms) \<noteq> [] \<longleftrightarrow> k \<in> set (map r_replyId (sights now i ms))"
    by (auto simp: group_of_def filter_empty_conv)
  then show ?thesis by (simp add: sights_keys)
qed

lemma scan_entry:
  assumes "scan now i ms ([], 0) = Inr (rm, n)" and "(k, r) \<in> set rm"
  shows "\<exists>f fs. group_of k (sights now i ms) = f # fs \<and> r = foldl absorb f fs"
proof -
  have d: "distinct (map fst rm)"
    using scan_distinct [OF assms(1)] by simp
  have "map_of rm k = Some r"
    using d assms(2) by simp
  then have "fold_group None (group_of k (sights now i ms)) = Some r"
    using scan_map_of [OF assms(1), of k] by simp
  then show ?thesis
    by (cases "group_of k (sights now i ms)") (simp_all add: fold_group_Some)
qed

lemma scan_keys:
  assumes "scan now i ms ([], 0) = Inr (rm, n)"
  shows "set (map fst rm) = grouping_key ` set ms"
proof -
  have "k \<in> set (map fst rm) \<longleftrightarrow> k \<in> grouping_key ` set ms" for k
  proof -
    have "k \<in> set (map fst rm) \<longleftrightarrow> map_of rm k \<noteq> None"
      by (simp add: map_of_eq_None_iff)
    also have "\<dots> \<longleftrightarrow> group_of k (sights now i ms) \<noteq> []"
      using scan_map_of [OF assms, of k]
      by (cases "group_of k (sights now i ms)") (simp_all add: fold_group_Some)
    finally show ?thesis by (simp add: group_of_nonempty_iff)
  qed
  then show ?thesis by blast
qed

lemma group_of_key: "f \<in> set (group_of k items) \<Longrightarrow> r_replyId f = k"
  by (simp add: group_of_def)

lemma scan_entry_replyId:
  assumes "scan now i ms ([], 0) = Inr (rm, n)" and "(k, r) \<in> set rm"
  shows "r_replyId r = k"
proof -
  from scan_entry [OF assms] obtain f fs
    where g: "group_of k (sights now i ms) = f # fs" and r: "r = foldl absorb f fs" by blast
  have "f \<in> set (group_of k (sights now i ms))" by (simp add: g)
  then have "r_replyId f = k" by (rule group_of_key)
  then show ?thesis by (simp add: r foldl_absorb_fixed)
qed

lemma scan_row_ids:
  assumes "scan now i ms ([], 0) = Inr (rm, n)"
  shows "map row_replyId (map (reply_row_of \<circ> snd) rm) = map fst rm"
proof -
  have "row_replyId (reply_row_of (snd p)) = fst p" if "p \<in> set rm" for p
    using scan_entry_replyId [OF assms, of "fst p" "snd p"] that
    by (simp add: reply_row_of_def)
  then show ?thesis by simp
qed

lemma createTable_reply:
  "createTable ''reply_table'' True d =
     (None, case reply_table d of None \<Rightarrow> d\<lparr>reply_table := Some [], reply_foreignKeys := []\<rparr>
            | Some rows \<Rightarrow> d)"
  by (simp add: createTable_def split: option.splits)

lemma up_create_fields:
  assumes "up_create e d = (None, d1)"
  shows "reply_table d1 = Some (old_rows d)" "message_table d1 = message_table d"
    "run_table d1 = run_table d" "replyId_isNullable d1 = replyId_isNullable d"
    "message_foreignKeys d1 = message_foreignKeys d"
    "''run_table'' \<in> set (map fk_referencedTableName (reply_foreignKeys d1))"
  using assms
  by (auto simp: up_create_def and_then_def createTable_reply createForeignKey_def old_rows_def
        FK_reply_run_def split: option.splits if_splits)

lemma up_create_error:
  assumes "fst (up_create e d) = Some x"
  shows "x = ConstraintAlreadyExists ''FK_reply_run''" "snd (up_create e d) = d"
    "duplicate_constraint_fails e" "reply_table d \<noteq> None"
  using assms
  by (auto simp: up_create_def and_then_def createTable_reply createForeignKey_def
        FK_reply_run_def split: option.splits if_splits)

lemma insert_reply_fields:
  assumes "insert_reply r d = (x, d')"
  shows "message_table d' = message_table d" "run_table d' = run_table d"
    "replyId_isNullable d' = replyId_isNullable d"
    "message_foreignKeys d' = message_foreignKeys d"
    "reply_foreignKeys d' = reply_foreignKeys d"
    "x \<noteq> Some (MigrationFailed c)" "x \<noteq> Some (TableAlreadyExists t)"
  using assms
  by (auto simp: insert_reply_def split: option.splits if_splits)

lemma insert_replies_fields:
  "insert_replies rs d = (x, d') \<Longrightarrow>
   message_table d' = message_table d \<and> run_table d' = run_table d \<and>
   replyId_isNullable d' = replyId_isNullable d \<and>
   message_foreignKeys d' = message_foreignKeys d \<and>
   reply_foreignKeys d' = reply_foreignKeys d \<and>
   x \<noteq> Some (MigrationFailed c) \<and> x \<noteq> Some (TableAlreadyExists t)"
proof (induction rs arbitrary: d)
  case Nil
  then show ?case by simp
next
  case (Cons r rs)
  obtain y d1 where s: "insert_reply r d = (y, d1)" by (cases "insert_reply r d")
  note f = insert_reply_fields [OF s]
  show ?case
  proof (cases y)
    case None
    with Cons.prems s have "insert_replies rs d1 = (x, d')" by (simp add: and_then_def)
    from Cons.IH [OF this] f show ?thesis by simp
  next
    case (Some z)
    with Cons.prems s have "x = y" "d' = d1" by (simp_all add: and_then_def)
    with f show ?thesis by simp
  qed
qed

lemma insert_replies_rows:
  "insert_replies rs d = (None, d') \<Longrightarrow> reply_table d = Some rows \<Longrightarrow>
   reply_table d' = Some (rows @ map reply_row_of rs)"
proof (induction rs arbitrary: d rows)
  case Nil
  then show ?case by simp
next
  case (Cons r rs)
  from Cons.prems(1) obtain d1 where s: "insert_reply r d = (None, d1)"
    and t: "insert_replies rs d1 = (None, d')"
    by (auto simp: and_then_None_iff)
  from s Cons.prems(2) have "reply_table d1 = Some (rows @ [reply_row_of r])"
    by (auto simp: insert_reply_def split: if_splits)
  from Cons.IH [OF t this] show ?case by simp
qed

lemma insert_replies_duplicate:
  assumes "reply_table d = Some rows" and "r_replyId r \<in> set (map row_replyId rows)"
  shows "insert_replies (r # rs) d = (Some (UniqueConstraintFailed (r_replyId r)), d)"
  using assms by (simp add: insert_reply_def and_then_def)

lemma scan_error: "scan now i ms st = Inl err \<Longrightarrow> err = JSONSyntaxError"
proof (induction ms arbitrary: i st)
  case Nil
  then show ?case by simp
next
  case (Cons m ms)
  obtain rm n where st: "st = (rm, n)" by (cases st)
  show ?case
  proof (cases "m_msg m")
    case Malformed
    with Cons.prems show ?thesis by (simp add: loop_body_Malformed)
  next
    case (Payload p)
    with Cons.prems Cons.IH show ?thesis
      by (simp add: st loop_body_Payload)
  qed
qed

lemma up_backfill_ok:
  assumes "up_backfill e d = (None, d')" and "reply_table d = Some rows"
  shows "\<exists>rm n. scan (clock e) 0 (select_messages e d) ([], 0) = Inr (rm, n) \<and>
     reply_table d' = Some (rows @ map (reply_row_of \<circ> snd) rm) \<and>
     message_table d' = map fill (message_table d) \<and>
     run_table d' = run_table d \<and> replyId_isNullable d' = replyId_isNullable d \<and>
     message_foreignKeys d' = message_foreignKeys d \<and>
     reply_foreignKeys d' = reply_foreignKeys d"
proof -
  from assms(1) obtain rm n where sc: "scan (clock e) 0 (select_messages e d) ([], 0) = Inr (rm, n)"
    by (cases "scan (clock e) 0 (select_messages e d) ([], 0)")
      (auto simp: up_backfill_def Let_def)
  from assms(1) sc obtain d1 where ins: "insert_replies (map snd rm) d = (None, d1)"
    and upd: "(if n > 0 then update_replyId_to_id d1 else (None, d1)) = (None, d')"
    by (auto simp: up_backfill_def Let_def and_then_None_iff)
  note f = insert_replies_fields [OF ins]
  have rows: "reply_table d1 = Some (rows @ map (reply_row_of \<circ> snd) rm)"
    using insert_replies_rows [OF ins assms(2)] by simp
  have n: "n = length (filter (\<lambda>m. null_or_empty (m_replyId m)) (select_messages e d))"
    using scan_null_count [OF sc] by simp
  have msgs: "message_table d' = map fill (message_table d)"
  proof (cases "n > 0")
    case True
    with upd f show ?thesis by (auto simp: update_replyId_to_id_def fill_def [abs_def])
  next
    case False
    then have "\<forall>m \<in> set (select_messages e d). \<not> null_or_empty (m_replyId m)"
      using n by (simp add: filter_empty_conv)
    then have "\<forall>m \<in> set (message_table d). \<not> null_or_empty (m_replyId m)"
      by (simp add: select_messages_def)
    then have "map fill (message_table d) = message_table d"
      by (simp add: fill_def map_idI)
    with False upd f show ?thesis by simp
  qed
  have rest: "reply_table d' = reply_table d1 \<and> run_table d' = run_table d1 \<and>
     replyId_isNullable d' = replyId_isNullable d1 \<and>
     message_foreignKeys d' = message_foreignKeys d1 \<and>
     reply_foreignKeys d' = reply_foreignKeys d1"
    using upd by (auto simp: update_replyId_to_id_def split: if_splits)
  show ?thesis using sc rows msgs rest f by auto
qed

lemma up_backfill_error:
  assumes "fst (up_backfill e d) = Some x"
  shows "x \<noteq> MigrationFailed c \<and> x \<noteq> TableAlreadyExists t \<and>
    replyId_isNullable (snd (up_backfill e d)) = replyId_isNullable d \<and>
    message_foreignKeys (snd (up_backfill e d)) = message_foreignKeys d"
  proof (cases "scan (clock e) 0 (select_messages e d) ([], 0)")
    case (Inl err)
    have "err = JSONSyntaxError" using Inl by (rule scan_error)
    then show ?thesis using assms Inl by (simp add: up_backfill_def Let_def)
  next
    case (Inr st)
    obtain y d1 where ins: "insert_replies (map snd (fst st)) d = (y, d1)"
      by (cases "insert_replies (map snd (fst st)) d")
    note f = insert_replies_fields [OF ins, of c t]
    show ?thesis using assms Inr ins f
      by (cases y) (auto simp: up_backfill_def Let_def and_then_def update_replyId_to_id_def
          split: if_splits)
qed

lemma up_verify_eq:
  "up_verify d =
     (if select_null_count d > 0 then (Some (MigrationFailed (select_null_count d)), d)
      else (None, d))"
  by (simp add: up_verify_def Let_def)

lemma up_constrain_ok:
  assumes "up_constrain e d = (None, d')"
  shows "message_table d' = message_table d" "reply_table d' = reply_table d"
    "run_table d' = run_table d" "reply_foreignKeys d' = reply_foreignKeys d"
    "replyId_isNullable d' = False"
    "message_foreignKeys d' = message_foreignKeys d @ [FK_message_reply]"
  using assms
  by (auto simp: up_constrain_def and_then_def changeColumn_def createForeignKey_def
        split: if_splits)

lemma up_constrain_error:
  assumes "fst (up_constrain e d) = Some x"
  shows "x \<noteq> MigrationFailed c" "x \<noteq> TableAlreadyExists t"
  using assms
  by (auto simp: up_constrain_def and_then_def changeColumn_def createForeignKey_def
        split: if_splits)

lemma up_ok_iff:
  "up e d = (None, d') \<longleftrightarrow>
     (\<exists>d1 d2. up_create e d = (None, d1) \<and> up_backfill e d1 = (None, d2) \<and>
        select_null_count d2 = 0 \<and> up_constrain e d2 = (None, d'))"
  by (auto simp: up_def and_then_None_iff up_verify_eq split: if_splits)

lemma up_ok:
  assumes "up e d = (None, d')"
  shows "\<exists>rm n. scan (clock e) 0 (select_messages e d) ([], 0) = Inr (rm, n) \<and>
     reply_table d' = Some (old_rows d @ map (reply_row_of \<circ> snd) rm) \<and>
     message_table d' = map fill (message_table d) \<and>
     (\<forall>m \<in> set (message_table d'). \<not> null_or_empty (m_replyId m)) \<and>
     run_table d' = run_table d \<and> replyId_isNullable d' = False \<and>
     message_foreignKeys d' = message_foreignKeys d @ [FK_message_reply]"
proof -
  from assms obtain d1 d2 where c: "up_create e d = (None, d1)"
    and b: "up_backfill e d1 = (None, d2)" and v: "select_null_count d2 = 0"
    and k: "up_constrain e d2 = (None, d')"
    by (auto simp: up_ok_iff)
  note cf = up_create_fields [OF c]
  from up_backfill_ok [OF b cf(1)] obtain rm n
    where sc: "scan (clock e) 0 (select_messages e d1) ([], 0) = Inr (rm, n)"
      and bf: "reply_table d2 = Some (old_rows d @ map (reply_row_of \<circ> snd) rm)"
        "message_table d2 = map fill (message_table d1)"
        "run_table d2 = run_table d1" "replyId_isNullable d2 = replyId_isNullable d1"
        "message_foreignKeys d2 = message_foreignKeys d1"
    by blast
  note kf = up_constrain_ok [OF k]
  have sel: "select_messages e d1 = select_messages e d"
    by (simp add: select_messages_def cf)
  have nn: "\<forall>m \<in> set (message_table d2). \<not> null_or_empty (m_replyId m)"
    using v by (simp add: select_null_count_def filter_empty_conv)
  show ?thesis
    using sc bf kf cf nn by (auto simp: sel)
qed

lemma fill_replyId:
  "\<not> null_or_empty (m_replyId (fill m)) \<Longrightarrow> m_replyId (fill m) = Some (grouping_key m)"
  by (auto simp: fill_def grouping_key_def null_or_empty_def split: option.splits if_splits)



subsection \<open>Grouping\<close>

text \<open>
  Under the binary collation the id U+FF5E comes before the id U+1F600, whose UTF-16
  code units are the smaller ones.
\<close>

lemma utf8_order_example:
  "utf8 [0xFF5E] < utf8 [0xD83D, 0xDE00] \<and> [0xD83D, 0xDE00] < ([0xFF5E] :: jsstring)"
  by (simp add: utf8_def utf8_bytes_def)

lemma up_rows:
  assumes "up e d = (None, d')"
  shows "\<exists>rm n. scan (clock e) 0 (select_messages e d) ([], 0) = Inr (rm, n) \<and>
     reply_table d' = Some (old_rows d @ map (reply_row_of \<circ> snd) rm)"
  using up_ok [OF assms] by blast

text \<open>
  Claim C2. The scan goes through the rows of \<open>message_table\<close>, each once, in
  ascending order of their ids (under the collation of the column). A forward
  migration that completes inserts one row per distinct grouping key, the key being the
  \<open>replyId\<close> of a message when present and not empty and its own id otherwise. The
  \<open>createdAt\<close> of the row is the timestamp of the first message of the group in scan
  order, its \<open>finishedAt\<close> the greatest timestamp of the group in the order of
  strings. On the example of the specification the replies are \<open>1\<close> (09:00 to
  09:00) and \<open>A\<close> (09:05 to 09:10), messages 2 and 3 keep \<open>A\<close>, and message 1
  gets \<open>1\<close>. On a table that stores message 2 (09:00) before message 1 (08:00),
  both of reply \<open>A\<close>, the scan takes message 1 first and the reply spans 08:00 to
  09:00.
\<close>

theorem up_one_reply_per_group:
  "sorted (map (\<lambda>m. collation e (m_id m)) (select_messages e d)) \<and>
   mset (select_messages e d) = mset (message_table d) \<and>
   (up e d = (None, d') \<longrightarrow>
      (\<exists>inserted. reply_table d' = Some (old_rows d @ inserted) \<and>
         distinct (map row_replyId inserted) \<and>
         set (map row_replyId inserted) = grouping_key ` set (message_table d) \<and>
         (\<forall>row \<in> set inserted.
            let g = group_of (row_replyId row) (sights (clock e) 0 (select_messages e d))
            in g \<noteq> [] \<and> row_createdAt row = r_createdAt (hd g) \<and>
               row_finishedAt row = Some (Max (r_finishedAt ` set g))))) \<and>
   fst (up env0 (old_schema example_messages)) = None \<and>
   map (\<lambda>r. (row_replyId r, row_createdAt r, row_finishedAt r))
       (the (reply_table (snd (up env0 (old_schema example_messages)))))
     = [(js ''1'', js ''09:00'', Some (js ''09:00'')),
        (js ''A'', js ''09:05'', Some (js ''09:10''))] \<and>
   map (\<lambda>m. (m_id m, m_replyId m)) (message_table (snd (up env0 (old_schema example_messages))))
     = [(js ''1'', Some (js ''1'')), (js ''2'', Some (js ''A'')), (js ''3'', Some (js ''A''))] \<and>
   map m_id (select_messages env0 (old_schema unsorted_messages)) = [js ''1'', js ''2''] \<and>
   map (\<lambda>r. (row_replyId r, row_createdAt r, row_finishedAt r))
       (the (reply_table (snd (up env0 (old_schema unsorted_messages)))))
     = [(js ''A'', js ''08:00'', Some (js ''09:00''))]"
proof -
  have order: "sorted (map (\<lambda>m. collation e (m_id m)) (select_messages e d))"
    unfolding select_messages_def by (rule sorted_sort_key)
  have perm: "mset (select_messages e d) = mset (message_table d)"
    unfolding select_messages_def by (rule mset_sort)
  have general: "\<exists>inserted. reply_table d' = Some (old_rows d @ inserted) \<and>
         distinct (map row_replyId inserted) \<and>
         set (map row_replyId inserted) = grouping_key ` set (message_table d) \<and>
         (\<forall>row \<in> set inserted.
            let g = group_of (row_replyId row) (sights (clock e) 0 (select_messages e d))
            in g \<noteq> [] \<and> row_createdAt row = r_createdAt (hd g) \<and>
               row_finishedAt row = Some (Max (r_finishedAt ` set g)))"
    if ok: "up e d = (None, d')"
  proof -
    from up_rows [OF ok] obtain rm n
      where sc: "scan (clock e) 0 (select_messages e d) ([], 0) = Inr (rm, n)"
        and rows: "reply_table d' = Some (old_rows d @ map (reply_row_of \<circ> snd) rm)"
      by blast
    let ?ins = "map (reply_row_of \<circ> snd) rm"
    let ?items = "sights (clock e) 0 (select_messages e d)"
    have ids: "map row_replyId ?ins = map fst rm"
      by (rule scan_row_ids [OF sc])
    have dist: "distinct (map row_replyId ?ins)"
      using scan_distinct [OF sc] by (simp only: ids) simp
    have keys: "set (map row_replyId ?ins) = grouping_key ` set (message_table d)"
      using scan_keys [OF sc] by (simp only: ids) (simp add: select_messages_def)
    have each: "let g = group_of (row_replyId row) ?items
            in g \<noteq> [] \<and> row_createdAt row = r_createdAt (hd g) \<and>
               row_finishedAt row = Some (Max (r_finishedAt ` set g))"
      if "row \<in> set ?ins" for row
    proof -
      from that obtain k r where kr: "(k, r) \<in> set rm" and row: "row = reply_row_of r"
        by auto
      from scan_entry [OF sc kr] obtain f fs
        where g: "group_of k ?items = f # fs" and r: "r = foldl absorb f fs" by blast
      have "row_replyId row = k"
        using scan_entry_replyId [OF sc kr] by (simp add: row reply_row_of_def)
      moreover have "row_createdAt row = r_createdAt f"
        by (simp add: row reply_row_of_def r foldl_absorb_fixed)
      moreover have "row_finishedAt row = Some (Max (r_finishedAt ` set (f # fs)))"
        by (simp only: row reply_row_of_def r foldl_absorb_finishedAt) simp
      ultimately show ?thesis by (simp add: g Let_def)
    qed
    from rows dist keys each show ?thesis by blast
  qed
  have ex1: "fst (up env0 (old_schema example_messages)) = None"
    by code_simp
  have ex2: "map (\<lambda>r. (row_replyId r, row_createdAt r, row_finishedAt r))
       (the (reply_table (snd (up env0 (old_schema example_messages)))))
     = [(js ''1'', js ''09:00'', Some (js ''09:00'')),
        (js ''A'', js ''09:05'', Some (js ''09:10''))]"
    by code_simp
  have ex3: "map (\<lambda>m. (m_id m, m_replyId m))
       (message_table (snd (up env0 (old_schema example_messages))))
     = [(js ''1'', Some (js ''1'')), (js ''2'', Some (js ''A'')), (js ''3'', Some (js ''A''))]"
    by code_simp
  have ex4: "map m_id (select_messages env0 (old_schema unsorted_messages))
      = [js ''1'', js ''2'']"
    by code_simp
  have ex5: "map (\<lambda>r. (row_replyId r, row_createdAt r, row_finishedAt r))
       (the (reply_table (snd (up env0 (old_schema unsorted_messages)))))
     = [(js ''A'', js ''08:00'', Some (js ''09:00''))]"
    by code_simp
  from order perm general ex1 ex2 ex3 ex4 ex5 show ?thesis by blast
qed

theorem up_one_reply_per_group_witness:
  "fst (up env0 (old_schema example_messages)) = None \<and>
   (\<exists>inserted. reply_table (snd (up env0 (old_schema example_messages)))
         = Some (old_rows (old_schema example_messages) @ inserted) \<and>
      distinct (map row_replyId inserted) \<and>
      set (map row_replyId inserted) = {js ''1'', js ''A''})"
proof -
  have ok: "fst (up env0 (old_schema example_messages)) = None"
    by code_simp
  then have eq: "up env0 (old_schema example_messages)
      = (None, snd (up env0 (old_schema example_messages)))"
    by (simp add: prod_eq_iff)
  have keys: "grouping_key ` set (message_table (old_schema example_messages)) = {js ''1'', js ''A''}"
    by (auto simp add: old_schema_def example_messages_def mk_msg_def grouping_key_def
        null_or_empty_def js_def)
  from up_one_reply_per_group [of env0 "old_schema example_messages"
      "snd (up env0 (old_schema example_messages))"] eq ok keys
  show ?thesis by auto
qed

text \<open>
  Claim C3, as amended. The role and the name of a reply are written together with
  \<open>finishedAt\<close>, and only when the timestamp of the message is strictly greater than
  the current \<open>finishedAt\<close>. So the row of a group carries the role and the name of
  the first message, in scan order, that has the greatest timestamp of the group: every
  message before it has a smaller timestamp, none after it has a greater one.
\<close>

theorem up_role_name_of_latest:
  assumes "up e d = (None, d')"
  shows "\<exists>inserted. reply_table d' = Some (old_rows d @ inserted) \<and>
     (\<forall>row \<in> set inserted.
        \<exists>pre m post.
          group_of (row_replyId row) (sights (clock e) 0 (select_messages e d)) = pre @ m # post \<and>
          (\<forall>x \<in> set pre. r_finishedAt x < r_finishedAt m) \<and>
          (\<forall>x \<in> set post. r_finishedAt x \<le> r_finishedAt m) \<and>
          row_replyRole row = r_role m \<and> row_replyName row = r_name m \<and>
          row_finishedAt row = Some (r_finishedAt m))"
proof -
  from up_rows [OF assms] obtain rm n
    where sc: "scan (clock e) 0 (select_messages e d) ([], 0) = Inr (rm, n)"
      and rows: "reply_table d' = Some (old_rows d @ map (reply_row_of \<circ> snd) rm)"
    by blast
  let ?ins = "map (reply_row_of \<circ> snd) rm"
  let ?items = "sights (clock e) 0 (select_messages e d)"
  have each: "\<exists>pre m post.
          group_of (row_replyId row) ?items = pre @ m # post \<and>
          (\<forall>x \<in> set pre. r_finishedAt x < r_finishedAt m) \<and>
          (\<forall>x \<in> set post. r_finishedAt x \<le> r_finishedAt m) \<and>
          row_replyRole row = r_role m \<and> row_replyName row = r_name m \<and>
          row_finishedAt row = Some (r_finishedAt m)"
    if "row \<in> set ?ins" for row
  proof -
    from that obtain k r where kr: "(k, r) \<in> set rm" and row: "row = reply_row_of r"
      by auto
    from scan_entry [OF sc kr] obtain f fs
      where g: "group_of k ?items = f # fs" and r: "r = foldl absorb f fs" by blast
    have k: "row_replyId row = k"
      using scan_entry_replyId [OF sc kr] by (simp add: row reply_row_of_def)
    from foldl_absorb_source [of f fs] obtain pre m post
      where split: "f # fs = pre @ m # post"
        and lt: "\<forall>x \<in> set pre. r_finishedAt x < r_finishedAt m"
        and le: "\<forall>x \<in> set post. r_finishedAt x \<le> r_finishedAt m"
        and src: "r_role (foldl absorb f fs) = r_role m" "r_name (foldl absorb f fs) = r_name m"
          "r_finishedAt (foldl absorb f fs) = r_finishedAt m"
      by blast
    have "group_of (row_replyId row) ?items = pre @ m # post"
      by (simp add: k g split)
    moreover have "row_replyRole row = r_role m" "row_replyName row = r_name m"
      "row_finishedAt row = Some (r_finishedAt m)"
      by (simp_all add: row reply_row_of_def r src)
    ultimately show ?thesis using lt le by blast
  qed
  with rows show ?thesis by blast
qed

theorem up_role_name_of_latest_witness:
  "fst (up env0 (old_schema late_first_messages)) = None \<and>
   (\<exists>inserted. reply_table (snd (up env0 (old_schema late_first_messages)))
        = Some (old_rows (old_schema late_first_messages) @ inserted) \<and>
     (\<forall>row \<in> set inserted.
        \<exists>pre m post.
          group_of (row_replyId row)
            (sights (clock env0) 0 (select_messages env0 (old_schema late_first_messages)))
            = pre @ m # post \<and>
          (\<forall>x \<in> set pre. r_finishedAt x < r_finishedAt m) \<and>
          (\<forall>x \<in> set post. r_finishedAt x \<le> r_finishedAt m) \<and>
          row_replyRole row = r_role m \<and> row_replyName row = r_name m \<and>
          row_finishedAt row = Some (r_finishedAt m)))"
proof -
  have ok: "fst (up env0 (old_schema late_first_messages)) = None"
    by code_simp
  then have "up env0 (old_schema late_first_messages)
      = (None, snd (up env0 (old_schema late_first_messages)))"
    by (simp add: prod_eq_iff)
  from up_role_name_of_latest [OF this] ok show ?thesis by blast
qed

text \<open>
  Claim C3 as stated fails: in a group whose last message in scan order has the earlier
  timestamp, the reply keeps the role and the name of the first message.
\<close>

theorem last_write_wins_counterexample:
  "fst (up env0 (old_schema late_first_messages)) = None \<and>
   map row_replyId (the (reply_table (snd (up env0 (old_schema late_first_messages)))))
     = [js ''A''] \<and>
   map row_replyRole (the (reply_table (snd (up env0 (old_schema late_first_messages)))))
     = [js ''assistant''] \<and>
   map row_replyName (the (reply_table (snd (up env0 (old_schema late_first_messages)))))
     = [js ''bot''] \<and>
   map grouping_key (select_messages env0 (old_schema late_first_messages)) = [js ''A'', js ''A''] \<and>
   r_role (sight (clock env0) 1 (last (select_messages env0 (old_schema late_first_messages))))
     = js ''user'' \<and>
   r_name (sight (clock env0) 1 (last (select_messages env0 (old_schema late_first_messages))))
     = js ''alice''"
  by code_simp

subsection \<open>The integrity check\<close>

lemma up_unfold:
  "up e d =
     (case up_create e d of
        (Some x, d1) \<Rightarrow> (Some x, d1)
      | (None, d1) \<Rightarrow>
          (case up_backfill e d1 of
             (Some x, d2) \<Rightarrow> (Some x, d2)
           | (None, d2) \<Rightarrow>
               if select_null_count d2 > 0
               then (Some (MigrationFailed (select_null_count d2)), d2)
               else up_constrain e d2))"
proof -
  obtain x1 d1 where c: "up_create e d = (x1, d1)" by (cases "up_create e d")
  obtain x2 d2 where b: "up_backfill e d1 = (x2, d2)" by (cases "up_backfill e d1")
  show ?thesis
    by (cases x1; cases x2) (simp_all add: up_def and_then_def up_verify_eq c b)
qed

lemma up_never_TableAlreadyExists: "fst (up e d) \<noteq> Some (TableAlreadyExists t)"
proof -
  obtain x1 d1 where c: "up_create e d = (x1, d1)" by (cases "up_create e d")
  obtain x2 d2 where b: "up_backfill e d1 = (x2, d2)" by (cases "up_backfill e d1")
  show ?thesis
  proof (cases x1)
    case (Some x)
    then have "x = ConstraintAlreadyExists ''FK_reply_run''"
      using up_create_error(1) [of e d x] c by simp
    with Some c show ?thesis by (simp add: up_unfold)
  next
    case None
    note n1 = this
    show ?thesis
    proof (cases x2)
      case (Some x)
      then have "x \<noteq> TableAlreadyExists t"
        using up_backfill_error [of e d1 x] b by simp
      with Some n1 c b show ?thesis by (simp add: up_unfold)
    next
      case None
      have "fst (up_constrain e d2) \<noteq> Some (TableAlreadyExists t)"
        using up_constrain_error(2) [of e d2 "TableAlreadyExists t" t] by blast
      with None n1 c b show ?thesis by (simp add: up_unfold)
    qed
  qed
qed

text \<open>
  Claim C4. The migration throws its own error, with the count \<open>n\<close>, exactly when the
  steps before the check complete and the check then counts \<open>n > 0\<close> rows of
  \<open>message_table\<close> whose \<open>replyId\<close> is NULL or empty. The migration then stops in
  the state that the backfill has left: the column \<open>replyId\<close> is as nullable as
  before the migration and \<open>message_table\<close> has the foreign keys it had, so neither
  the NOT NULL alteration nor the creation of the foreign key has happened.
\<close>

theorem up_integrity_check:
  "(fst (up e d) = Some (MigrationFailed n)) =
     (\<exists>d1 d2. up_create e d = (None, d1) \<and> up_backfill e d1 = (None, d2) \<and>
        select_null_count d2 = n \<and> 0 < n) \<and>
   (fst (up e d) = Some (MigrationFailed n) \<longrightarrow>
      (\<exists>d1. up_create e d = (None, d1) \<and> up_backfill e d1 = (None, snd (up e d))) \<and>
      replyId_isNullable (snd (up e d)) = replyId_isNullable d \<and>
      message_foreignKeys (snd (up e d)) = message_foreignKeys d)"
proof -
  obtain x1 d1 where c: "up_create e d = (x1, d1)" by (cases "up_create e d")
  obtain x2 d2 where b: "up_backfill e d1 = (x2, d2)" by (cases "up_backfill e d1")
  show ?thesis
  proof (cases x1)
    case (Some x)
    then have "x = ConstraintAlreadyExists ''FK_reply_run''"
      using up_create_error(1) [of e d x] c by simp
    with Some c show ?thesis by (simp add: up_unfold)
  next
    case None
    note n1 = this
    note cf = up_create_fields [OF c [unfolded n1]]
    show ?thesis
    proof (cases x2)
      case (Some x)
      then have "x \<noteq> MigrationFailed n"
        using up_backfill_error [of e d1 x] b by simp
      with Some n1 c b show ?thesis by (simp add: up_unfold)
    next
      case None
      from up_backfill_ok [OF b [unfolded None] cf(1)]
      have bf: "replyId_isNullable d2 = replyId_isNullable d1"
        "message_foreignKeys d2 = message_foreignKeys d1" by auto
      show ?thesis
      proof (cases "select_null_count d2 > 0")
        case True
        with None n1 c b bf cf show ?thesis by (auto simp: up_unfold)
      next
        case False
        have "fst (up_constrain e d2) \<noteq> Some (MigrationFailed n)"
          using up_constrain_error(1) [of e d2 "MigrationFailed n" n] by blast
        with False None n1 c b show ?thesis by (auto simp: up_unfold)
      qed
    qed
  qed
qed

theorem up_integrity_check_witness:
  "fst (up env0 (old_schema empty_id_messages)) = Some (MigrationFailed 1) \<and>
   replyId_isNullable (snd (up env0 (old_schema empty_id_messages))) \<and>
   message_foreignKeys (snd (up env0 (old_schema empty_id_messages))) = [] \<and>
   (\<exists>d1. up_create env0 (old_schema empty_id_messages) = (None, d1) \<and>
      up_backfill env0 d1 = (None, snd (up env0 (old_schema empty_id_messages))))"
proof -
  have f: "fst (up env0 (old_schema empty_id_messages)) = Some (MigrationFailed 1)"
    by code_simp
  from up_integrity_check [of env0 "old_schema empty_id_messages" 1] f
  show ?thesis by (simp add: old_schema_def)
qed

subsection \<open>Running the forward migration again\<close>

lemma update_hd:
  "rm \<noteq> [] \<Longrightarrow> AList.update k v rm \<noteq> [] \<and> fst (hd (AList.update k v rm)) = fst (hd rm)"
  by (cases rm) auto

lemma scan_hd:
  "scan now i ms (rm, n) = Inr (rm', n') \<Longrightarrow> rm \<noteq> [] \<Longrightarrow>
   rm' \<noteq> [] \<and> fst (hd rm') = fst (hd rm)"
proof (induction ms arbitrary: i rm n)
  case Nil
  then show ?case by simp
next
  case (Cons m ms)
  from Cons.prems(1) obtain p where p: "m_msg m = Payload p"
    by (cases "m_msg m") (simp_all add: loop_body_Malformed)
  let ?v = "case map_of rm (grouping_key m) of None \<Rightarrow> sight now i m
            | Some existing \<Rightarrow> absorb existing (sight now i m)"
  let ?rm1 = "AList.update (grouping_key m) ?v rm"
  from Cons.prems(1) p obtain n1 where sc: "scan now (Suc i) ms (?rm1, n1) = Inr (rm', n')"
    by (simp add: loop_body_Payload)
  from update_hd [OF Cons.prems(2), of "grouping_key m" ?v]
  have ne: "?rm1 \<noteq> []" and h: "fst (hd ?rm1) = fst (hd rm)" by simp_all
  from Cons.IH [OF sc ne] h show ?case by simp
qed

lemma scan_first_key:
  assumes "scan now i (m # ms) ([], 0) = Inr (rm, n)"
  shows "rm \<noteq> [] \<and> fst (hd rm) = grouping_key m"
proof -
  from assms obtain p where p: "m_msg m = Payload p"
    by (cases "m_msg m") (simp_all add: loop_body_Malformed)
  from assms p obtain n1
    where sc: "scan now (Suc i) ms ([(grouping_key m, sight now i m)], n1) = Inr (rm, n)"
    by (simp add: loop_body_Payload)
  from scan_hd [OF sc] show ?thesis by simp
qed

lemma fill_msg: "m_msg (fill m) = m_msg m"
  by (simp add: fill_def)

lemma grouping_key_filled:
  "\<not> null_or_empty (m_replyId m) \<Longrightarrow> m_replyId m = Some (grouping_key m)"
  by (auto simp: grouping_key_def null_or_empty_def split: option.splits)

lemma up_keys_in_rows:
  assumes "up e d = (None, d')"
  shows "\<exists>rows. reply_table d' = Some rows \<and>
     (\<forall>m \<in> set (message_table d'). grouping_key m \<in> set (map row_replyId rows)) \<and>
     (\<forall>m \<in> set (message_table d'). m_msg m \<noteq> Malformed) \<and>
     length (message_table d') = length (message_table d) \<and>
     FK_reply_run \<in> set (reply_foreignKeys d')"
proof -
  from up_ok [OF assms] obtain rm n
    where sc: "scan (clock e) 0 (select_messages e d) ([], 0) = Inr (rm, n)"
      and rows: "reply_table d' = Some (old_rows d @ map (reply_row_of \<circ> snd) rm)"
      and msgs: "message_table d' = map fill (message_table d)"
      and nn: "\<forall>m \<in> set (message_table d'). \<not> null_or_empty (m_replyId m)"
    by blast
  let ?ins = "map (reply_row_of \<circ> snd) rm"
  have ids: "set (map row_replyId ?ins) = grouping_key ` set (message_table d)"
    using scan_row_ids [OF sc] scan_keys [OF sc]
    by (simp add: select_messages_def)
  have keys: "grouping_key m' \<in> set (map row_replyId (old_rows d @ ?ins))"
    if m': "m' \<in> set (message_table d')" for m'
  proof -
    from m' msgs obtain m where m: "m \<in> set (message_table d)" and e: "m' = fill m"
      by auto
    from nn m' e have ne: "\<not> null_or_empty (m_replyId (fill m))" by simp
    have "m_replyId (fill m) = Some (grouping_key m)" using ne by (rule fill_replyId)
    moreover have "m_replyId (fill m) = Some (grouping_key (fill m))"
      using ne by (rule grouping_key_filled)
    ultimately have "grouping_key m' = grouping_key m" using e by simp
    moreover have "grouping_key m \<in> set (map row_replyId ?ins)"
      unfolding ids using m by simp
    ultimately show ?thesis by simp
  qed
  have "\<forall>m \<in> set (select_messages e d). m_msg m \<noteq> Malformed"
    using scan_succeeds_iff [of "clock e" 0 "select_messages e d" "([], 0)"] sc by auto
  then have pl: "\<forall>m \<in> set (message_table d'). m_msg m \<noteq> Malformed"
    by (auto simp: msgs select_messages_def fill_msg)
  from assms obtain d1 d2 where c: "up_create e d = (None, d1)"
    and b: "up_backfill e d1 = (None, d2)" and k: "up_constrain e d2 = (None, d')"
    by (auto simp: up_ok_iff)
  have "FK_reply_run \<in> set (reply_foreignKeys d1)"
    using c by (auto simp: up_create_def and_then_def createTable_reply createForeignKey_def
        split: option.splits if_splits)
  moreover have "reply_foreignKeys d2 = reply_foreignKeys d1"
    using up_backfill_ok [OF b up_create_fields(1) [OF c]] by blast
  moreover have "reply_foreignKeys d' = reply_foreignKeys d2"
    using up_constrain_ok [OF k] by simp
  ultimately have fk: "FK_reply_run \<in> set (reply_foreignKeys d')" by simp
  have k2: "\<forall>m \<in> set (message_table d').
      grouping_key m \<in> set (map row_replyId (old_rows d @ ?ins))"
    using keys by blast
  have len: "length (message_table d') = length (message_table d)"
    by (simp add: msgs)
  from rows k2 pl len fk show ?thesis by blast
qed

lemma up_create_no_clash:
  assumes "\<not> duplicate_constraint_fails e"
  shows "\<exists>d1. up_create e d = (None, d1)"
  using assms
  by (simp add: up_create_def and_then_def createTable_reply createForeignKey_def
      split: option.splits)

lemma up_create_clash:
  assumes "duplicate_constraint_fails e" and "reply_table d = Some rows"
    and "FK_reply_run \<in> set (reply_foreignKeys d)"
  shows "up_create e d = (Some (ConstraintAlreadyExists ''FK_reply_run''), d)"
proof -
  have "fk_name FK_reply_run \<in> fk_name ` set (reply_foreignKeys d)"
    using assms(3) by (rule imageI)
  then show ?thesis using assms(1,2)
    by (simp add: up_create_def and_then_def createTable_reply createForeignKey_def
        FK_reply_run_def)
qed

text \<open>
  Claim C5, as amended. On a schema where the forward migration has completed, the step
  that creates \<open>reply_table\<close> does not fail: it is called with \<open>ifNotExists\<close> set,
  finds the table and leaves the state as it is, and no step of a second run raises a
  table-already-exists error. A second run fails all the same when \<open>message_table\<close>
  has a row: with a duplicate-constraint error on \<open>FK_reply_run\<close> where the database
  refuses a second foreign key of that name, and otherwise with a primary-key violation
  at the insert of the first reply, whose id is already in \<open>reply_table\<close>.
\<close>

theorem up_second_run:
  assumes "up e d = (None, d')"
  shows "createTable ''reply_table'' True d' = (None, d') \<and>
     fst (up e2 d') \<noteq> Some (TableAlreadyExists t) \<and>
     (message_table d \<noteq> [] \<longrightarrow>
        fst (up e2 d') =
          Some (if duplicate_constraint_fails e2
                then ConstraintAlreadyExists ''FK_reply_run''
                else UniqueConstraintFailed (grouping_key (hd (select_messages e2 d')))))"
proof -
  from up_keys_in_rows [OF assms] obtain rows
    where rows: "reply_table d' = Some rows"
      and keys: "\<forall>m \<in> set (message_table d'). grouping_key m \<in> set (map row_replyId rows)"
      and pl: "\<forall>m \<in> set (message_table d'). m_msg m \<noteq> Malformed"
      and len: "length (message_table d') = length (message_table d)"
      and fk: "FK_reply_run \<in> set (reply_foreignKeys d')"
    by blast
  have t1: "createTable ''reply_table'' True d' = (None, d')"
    by (simp add: createTable_reply rows)
  have t2: "fst (up e2 d') \<noteq> Some (TableAlreadyExists t)"
    by (rule up_never_TableAlreadyExists)
  have t3: "fst (up e2 d') =
          Some (if duplicate_constraint_fails e2
                then ConstraintAlreadyExists ''FK_reply_run''
                else UniqueConstraintFailed (grouping_key (hd (select_messages e2 d'))))"
    if ne: "message_table d \<noteq> []"
  proof (cases "duplicate_constraint_fails e2")
    case True
    from up_create_clash [OF True rows fk] True show ?thesis
      by (simp add: up_unfold)
  next
    case False
    from up_create_no_clash [OF False] obtain d1 where c: "up_create e2 d' = (None, d1)"
      by blast
    note cf = up_create_fields [OF c]
    have sel: "select_messages e2 d1 = select_messages e2 d'"
      by (simp add: select_messages_def cf)
    have "length (select_messages e2 d') = length (message_table d')"
      by (simp add: select_messages_def)
    then have "select_messages e2 d' \<noteq> []"
      using ne len by auto
    then obtain m0 rest where ms: "select_messages e2 d' = m0 # rest"
      by (cases "select_messages e2 d'") auto
    have m0: "m0 \<in> set (message_table d')"
    proof -
      have "m0 \<in> set (select_messages e2 d')" by (simp add: ms)
      then show ?thesis by (simp add: select_messages_def)
    qed
    have "\<forall>m \<in> set (select_messages e2 d'). m_msg m \<noteq> Malformed"
      using pl by (simp add: select_messages_def)
    then obtain st where "scan (clock e2) 0 (select_messages e2 d') ([], 0) = Inr st"
      using scan_succeeds_iff [of "clock e2" 0 "select_messages e2 d'" "([], 0)"] by blast
    then obtain rm n where sc: "scan (clock e2) 0 (select_messages e2 d') ([], 0) = Inr (rm, n)"
      by (cases st) simp
    from scan_first_key [OF sc [unfolded ms]] obtain r0 rm0
      where rm: "rm = (grouping_key m0, r0) # rm0"
      by (cases rm) auto
    have r0: "r_replyId r0 = grouping_key m0"
      using scan_entry_replyId [OF sc, of "grouping_key m0" r0] by (simp add: rm)
    have dup: "r_replyId r0 \<in> set (map row_replyId rows)"
      using keys m0 r0 by simp
    have rt: "reply_table d1 = Some rows"
      using cf(1) rows by (simp add: old_rows_def)
    have "insert_replies (map snd rm) d1 = (Some (UniqueConstraintFailed (r_replyId r0)), d1)"
      using insert_replies_duplicate [OF rt dup] by (simp add: rm)
    then have "up_backfill e2 d1 = (Some (UniqueConstraintFailed (grouping_key m0)), d1)"
      using sc by (simp add: up_backfill_def sel Let_def and_then_def r0)
    with c False show ?thesis by (simp add: up_unfold ms)
  qed
  from t1 t2 t3 show ?thesis by blast
qed

theorem up_second_run_witness:
  "fst (up env0 (old_schema example_messages)) = None \<and>
   fst (up env0 (snd (up env0 (old_schema example_messages))))
     = Some (UniqueConstraintFailed (js ''1'')) \<and>
   fst (up env1 (snd (up env0 (old_schema example_messages))))
     = Some (ConstraintAlreadyExists ''FK_reply_run'')"
proof -
  have ok: "fst (up env0 (old_schema example_messages)) = None"
    by code_simp
  then have eq: "up env0 (old_schema example_messages)
      = (None, snd (up env0 (old_schema example_messages)))"
    by (simp add: prod_eq_iff)
  have ne: "message_table (old_schema example_messages) \<noteq> []"
    by (simp add: old_schema_def example_messages_def)
  have k: "grouping_key (hd (select_messages env0 (snd (up env0 (old_schema example_messages)))))
      = js ''1''"
    by code_simp
  have e0: "\<not> duplicate_constraint_fails env0" and e1: "duplicate_constraint_fails env1"
    by (simp_all add: env0_def env1_def)
  from up_second_run [OF eq, of env0] up_second_run [OF eq, of env1] ne k e0 e1 ok
  show ?thesis by simp
qed

text \<open>
  Claim C5 as stated fails: after a completed run on the example, the creation step of a
  second run succeeds, and the second run ends with a primary-key violation or a
  duplicate-constraint error, not with a table-already-exists error. With no message at
  all, a second run completes where the database accepts the repeated constraint name.
\<close>

theorem up_second_run_counterexample:
  "fst (up env0 (old_schema example_messages)) = None \<and>
   fst (createTable ''reply_table'' True (snd (up env0 (old_schema example_messages)))) = None \<and>
   fst (up env0 (snd (up env0 (old_schema example_messages))))
     = Some (UniqueConstraintFailed (js ''1'')) \<and>
   fst (up env1 (snd (up env0 (old_schema example_messages))))
     = Some (ConstraintAlreadyExists ''FK_reply_run'') \<and>
   fst (up env0 (old_schema [])) = None \<and>
   fst (up env0 (snd (up env0 (old_schema [])))) = None"
  by code_simp

subsection \<open>The backward migration and the round trip\<close>

lemma down_eq:
  "down d =
     (None,
      d\<lparr>message_foreignKeys :=
          (case find (\<lambda>fk. ''replyId'' \<in> set (fk_columnNames fk)) (message_foreignKeys d) of
             None \<Rightarrow> message_foreignKeys d
           | Some fk \<Rightarrow> removeForeignKey (fk_name fk) (message_foreignKeys d)),
        replyId_isNullable := True,
        message_table := map (\<lambda>m. m\<lparr>m_replyId := None\<rparr>) (message_table d),
        reply_table := None,
        reply_foreignKeys := (case reply_table d of None \<Rightarrow> reply_foreignKeys d | Some rows \<Rightarrow> [])\<rparr>)"
  by (simp add: down_def Let_def and_then_def dropForeignKey_def changeColumn_def
      update_replyId_to_null_def dropTable_def split: option.splits)

text \<open>
  Claim C6. The backward migration always completes. It drops the foreign key of
  \<open>message_table\<close> on the column \<open>replyId\<close> (the first one found, if there is
  one), makes the column nullable, sets \<open>replyId\<close> to NULL in every message row and
  drops \<open>reply_table\<close>. Every message is then its own group, so the round trip loses
  the grouping: there is a state before the migration, with two messages of one reply
  \<open>A\<close>, for which the forward migration makes the single reply \<open>A\<close>, and the
  forward migration after the backward one makes the two replies \<open>2\<close> and \<open>3\<close>.
\<close>

theorem down_then_up_lossy:
  "fst (down d) = None \<and>
   message_foreignKeys (snd (down d)) =
     (case find (\<lambda>fk. ''replyId'' \<in> set (fk_columnNames fk)) (message_foreignKeys d) of
        None \<Rightarrow> message_foreignKeys d
      | Some fk \<Rightarrow> removeForeignKey (fk_name fk) (message_foreignKeys d)) \<and>
   replyId_isNullable (snd (down d)) \<and>
   message_table (snd (down d)) = map (\<lambda>m. m\<lparr>m_replyId := None\<rparr>) (message_table d) \<and>
   reply_table (snd (down d)) = None \<and>
   (\<forall>m \<in> set (message_table (snd (down d))). grouping_key m = m_id m) \<and>
   (\<exists>d0 d1 d2 d3.
      reply_table d0 = None \<and>
      up env0 d0 = (None, d1) \<and> down d1 = (None, d2) \<and> up env0 d2 = (None, d3) \<and>
      FK_message_reply \<in> set (message_foreignKeys d1) \<and> message_foreignKeys d2 = [] \<and>
      map m_id (message_table d0) = [js ''2'', js ''3''] \<and>
      map row_replyId (the (reply_table d1)) = [js ''A''] \<and>
      map row_replyId (the (reply_table d3)) = [js ''2'', js ''3''] \<and>
      map row_replyId (the (reply_table d3)) \<noteq> map row_replyId (the (reply_table d1)))"
proof -
  have key: "\<forall>m \<in> set (message_table (snd (down d))). grouping_key m = m_id m"
    by (simp add: down_eq grouping_key_def null_or_empty_def)
  let ?d0 = "old_schema grouped_messages"
  let ?d1 = "snd (up env0 ?d0)"
  let ?d2 = "snd (down ?d1)"
  let ?d3 = "snd (up env0 ?d2)"
  have u1: "fst (up env0 ?d0) = None" by code_simp
  have u3: "fst (up env0 ?d2) = None" by code_simp
  have dn: "fst (down ?d1) = None" by (simp add: down_eq)
  have e1: "up env0 ?d0 = (None, ?d1)" using u1 by (simp add: prod_eq_iff)
  have e2: "down ?d1 = (None, ?d2)" using dn by (simp add: prod_eq_iff)
  have e3: "up env0 ?d2 = (None, ?d3)" using u3 by (simp add: prod_eq_iff)
  have r0: "reply_table ?d0 = None" by (simp add: old_schema_def)
  have m0: "map m_id (message_table ?d0) = [js ''2'', js ''3'']"
    by (simp add: old_schema_def grouped_messages_def mk_msg_def)
  have f1: "FK_message_reply \<in> set (message_foreignKeys ?d1)" by code_simp
  have f2: "message_foreignKeys ?d2 = []" by code_simp
  have r1: "map row_replyId (the (reply_table ?d1)) = [js ''A'']" by code_simp
  have r3: "map row_replyId (the (reply_table ?d3)) = [js ''2'', js ''3'']" by code_simp
  have ne: "map row_replyId (the (reply_table ?d3)) \<noteq> map row_replyId (the (reply_table ?d1))"
    by (simp add: r1 r3)
  have lossy: "\<exists>d0 d1 d2 d3.
      reply_table d0 = None \<and>
      up env0 d0 = (None, d1) \<and> down d1 = (None, d2) \<and> up env0 d2 = (None, d3) \<and>
      FK_message_reply \<in> set (message_foreignKeys d1) \<and> message_foreignKeys d2 = [] \<and>
      map m_id (message_table d0) = [js ''2'', js ''3''] \<and>
      map row_replyId (the (reply_table d1)) = [js ''A''] \<and>
      map row_replyId (the (reply_table d3)) = [js ''2'', js ''3''] \<and>
      map row_replyId (the (reply_table d3)) \<noteq> map row_replyId (the (reply_table d1))"
    by (rule exI [of _ ?d0], rule exI [of _ ?d1], rule exI [of _ ?d2], rule exI [of _ ?d3])
      (insert r0 e1 e2 e3 f1 f2 m0 r1 r3 ne, intro conjI, assumption+)
  show ?thesis using key lossy by (simp add: down_eq)
qed

theorem down_then_up_lossy_witness:
  "fst (down (snd (up env0 (old_schema grouped_messages)))) = None \<and>
   map m_replyId (message_table (snd (down (snd (up env0 (old_schema grouped_messages))))))
     = [None, None] \<and>
   map grouping_key (message_table (snd (down (snd (up env0 (old_schema grouped_messages))))))
     = [js ''2'', js ''3''] \<and>
   reply_table (snd (down (snd (up env0 (old_schema grouped_messages))))) = None"
proof -
  have m: "map m_id (message_table (snd (up env0 (old_schema grouped_messages))))
      = [js ''2'', js ''3'']"
    by code_simp
  have l: "length (message_table (snd (up env0 (old_schema grouped_messages)))) = 2"
    using arg_cong [OF m, of length] by simp
  then obtain a b where ab: "message_table (snd (up env0 (old_schema grouped_messages))) = [a, b]"
    by (cases "message_table (snd (up env0 (old_schema grouped_messages)))" rule: list.exhaust)
      (auto simp: length_Suc_conv)
  from down_then_up_lossy [of "snd (up env0 (old_schema grouped_messages))"] m ab
  show ?thesis by auto
qed

end
